theory Spec2Isabelle
  imports Main "HOL-Library.Multiset"
begin

section \<open>Strings of the host language\<close>

text \<open>
  The program is \<^verbatim>\<open>src/proj/src/App.jsx\<close>. Its strings are modelled as \<^typ>\<open>string\<close>;
  a \<^typ>\<open>char\<close> stands for a code unit in the range U+0000 .. U+00FF. Within that range
  the characters matched by \<^verbatim>\<open>\s\<close> and stripped by \<^verbatim>\<open>trim()\<close> are TAB, LF, VT, FF, CR,
  SPACE and NBSP, and \<^verbatim>\<open>toLowerCase()\<close> moves A-Z and U+00C0 .. U+00DE (without U+00D7)
  up by 32.
\<close>

definition isWhiteSpace :: "char \<Rightarrow> bool" where
  "isWhiteSpace c = (c \<in> set [CHR 0x09, CHR 0x0A, CHR 0x0B, CHR 0x0C, CHR 0x0D, CHR 0x20, CHR 0xA0])"

definition trim :: "string \<Rightarrow> string" where
  "trim s = rev (dropWhile isWhiteSpace (rev (dropWhile isWhiteSpace s)))"

text \<open>
  \<^verbatim>\<open>s.split(/\s+/)\<close>: the pieces of \<open>s\<close> between the maximal runs of white space. The
  empty string gives one empty piece; white space at the start or at the end gives an
  empty first or last piece.
\<close>

function splitWhitespace :: "string \<Rightarrow> string list" where
  "splitWhitespace [] = [[]]"
| "splitWhitespace (c # cs) =
     (if isWhiteSpace c then [] # splitWhitespace (dropWhile isWhiteSpace cs)
      else (case splitWhitespace cs of
              [] \<Rightarrow> [[c]]
            | w # ws \<Rightarrow> (c # w) # ws))"
  by pat_completeness auto
termination
  by (relation "measure length") (auto simp: length_dropWhile_le less_Suc_eq_le)

text \<open>\<^verbatim>\<open>ws.join(' ')\<close>, with the separator as a parameter.\<close>

fun join :: "string \<Rightarrow> string list \<Rightarrow> string" where
  "join sep [] = []"
| "join sep [w] = w"
| "join sep (w # v # ws) = w @ sep @ join sep (v # ws)"

text \<open>\<^verbatim>\<open>xs.slice(start, end)\<close> for \<open>0 \<le> start\<close> and \<open>0 \<le> end\<close>.\<close>

definition slice :: "'a list \<Rightarrow> nat \<Rightarrow> nat \<Rightarrow> 'a list" where
  "slice xs start end = take (end - start) (drop start xs)"

definition isUpper :: "char \<Rightarrow> bool" where
  "isUpper c =
     (let n = (of_char c :: nat)
      in (65 \<le> n \<and> n \<le> 90) \<or> (192 \<le> n \<and> n \<le> 222 \<and> n \<noteq> 215))"

definition lowerChar :: "char \<Rightarrow> char" where
  "lowerChar c = (if isUpper c then char_of ((of_char c :: nat) + 32) else c)"

definition toLowerCase :: "string \<Rightarrow> string" where
  "toLowerCase s = map lowerChar s"

text \<open>
  The decimal rendering of an integer, as \<^verbatim>\<open>String(n)\<close> and template literals give it
  for integers below \<open>10^21\<close> in absolute value.
\<close>

function showNat :: "nat \<Rightarrow> string" where
  "showNat n =
     (if n < 10 then [char_of (48 + n)]
      else showNat (n div 10) @ [char_of (48 + n mod 10)])"
  by pat_completeness auto
termination
  by (relation "measure id") auto

declare showNat.simps [simp del]

definition showInt :: "int \<Rightarrow> string" where
  "showInt i = (if i < 0 then CHR ''-'' # showNat (nat (- i)) else showNat (nat i))"

section \<open>Values and plain objects\<close>

text \<open>
  The values the program computes with in a count slot: a number (the counts stay far
  below \<open>2^53\<close>, where the arithmetic of doubles is exact on integers), a string, or a
  built-in object, which is kept only as the text that its conversion to a string gives.
\<close>

datatype jsval = Num int | Str string | Object string

fun truthy :: "jsval \<Rightarrow> bool" where
  "truthy (Num n) = (n \<noteq> 0)"
| "truthy (Str s) = (s \<noteq> [])"
| "truthy (Object s) = True"

fun toString :: "jsval \<Rightarrow> string" where
  "toString (Num n) = showInt n"
| "toString (Str s) = s"
| "toString (Object s) = s"

text \<open>The operator \<^verbatim>\<open>+\<close>: numbers are added, anything else is concatenated as strings.\<close>

fun jsAdd :: "jsval \<Rightarrow> jsval \<Rightarrow> jsval" where
  "jsAdd (Num a) (Num b) = Num (a + b)"
| "jsAdd a b = Str (toString a @ toString b)"

text \<open>
  An object literal \<^verbatim>\<open>{}\<close> is a plain object: its own enumerable properties, in the order
  in which \<^verbatim>\<open>Object.entries\<close> lists them (array indices first, ascending, then the
  other keys in the order of their creation), over the prototype \<^verbatim>\<open>Object.prototype\<close>.
\<close>

type_synonym 'v obj = "(string \<times> 'v) list"

definition isDigit :: "char \<Rightarrow> bool" where
  "isDigit c = (48 \<le> (of_char c :: nat) \<and> (of_char c :: nat) \<le> 57)"

definition parseNat :: "string \<Rightarrow> int" where
  "parseNat s = foldl (\<lambda>n c. 10 * n + ((of_char c :: int) - 48)) 0 s"

text \<open>An array index is the canonical decimal string of an integer from 0 to \<open>2^32 - 2\<close>.\<close>

definition isArrayIndex :: "string \<Rightarrow> bool" where
  "isArrayIndex s =
     (s \<noteq> [] \<and> list_all isDigit s \<and> (if hd s = CHR ''0'' then s = ''0'' else True)
      \<and> length s \<le> 10 \<and> parseNat s < 4294967295)"

definition keyBefore :: "string \<Rightarrow> string \<Rightarrow> bool" where
  "keyBefore k k' =
     (if isArrayIndex k then (if isArrayIndex k' then parseNat k < parseNat k' else True)
      else False)"

text \<open>The place of a new own property \<open>k\<close> among the existing ones.\<close>

fun objInsert :: "string \<Rightarrow> 'v \<Rightarrow> 'v obj \<Rightarrow> 'v obj" where
  "objInsert k v [] = [(k, v)]"
| "objInsert k v ((k', v') # ps) =
     (if keyBefore k k' then (k, v) # (k', v') # ps else (k', v') # objInsert k v ps)"

text \<open>
  The members of \<^verbatim>\<open>Object.prototype\<close>, which every plain object inherits, each with the
  text its conversion to a string gives: the accessor \<^verbatim>\<open>__proto__\<close> yields the
  prototype itself, the other members are built-in functions (\<^verbatim>\<open>constructor\<close> is the
  function \<^verbatim>\<open>Object\<close>). The exact spacing of a built-in function's text is the engine's.
\<close>

definition nativeSource :: "string \<Rightarrow> string" where
  "nativeSource f = ''function '' @ f @ ''() { [native code] }''"

definition objectPrototype :: "string \<Rightarrow> string option" where
  "objectPrototype k =
     (if k = ''constructor'' then Some (nativeSource ''Object'')
      else if k = ''__proto__'' then Some ''[object Object]''
      else if k \<in> set [''__defineGetter__'', ''__defineSetter__'', ''hasOwnProperty'',
                        ''__lookupGetter__'', ''__lookupSetter__'', ''isPrototypeOf'',
                        ''propertyIsEnumerable'', ''toString'', ''valueOf'',
                        ''toLocaleString'']
      then Some (nativeSource k)
      else None)"

text \<open>
  The result of reading \<^verbatim>\<open>ob[k]\<close>: the own property, else the inherited member, else
  \<^verbatim>\<open>undefined\<close>.
\<close>

datatype 'v lookup = Absent | Own 'v | Inherited string

definition objGet :: "'v obj \<Rightarrow> string \<Rightarrow> 'v lookup" where
  "objGet ob k =
     (case map_of ob k of
        Some v \<Rightarrow> Own v
      | None \<Rightarrow> (case objectPrototype k of Some s \<Rightarrow> Inherited s | None \<Rightarrow> Absent))"

text \<open>
  The assignment \<^verbatim>\<open>ob[k] = v\<close>. An own property keeps its place; a new key is inserted,
  also over an inherited member, all of which are writable, except \<^verbatim>\<open>__proto__\<close>, whose
  setter ignores a value that is not an object. (The program never assigns an object to
  a key that is a member of the prototype.)
\<close>

definition objSet :: "'v obj \<Rightarrow> string \<Rightarrow> 'v \<Rightarrow> 'v obj" where
  "objSet ob k v =
     (if k = ''__proto__'' then ob
      else if k \<in> fst ` set ob then map (\<lambda>(k', v'). if k' = k then (k', v) else (k', v')) ob
      else objInsert k v ob)"

section \<open>The program\<close>

datatype error = TypeError

record chunk =
  chunk_id :: nat
  chunk_text :: string

record mapResult =
  mapperId :: nat
  counts :: "jsval obj"

record entry =
  entry_mapperId :: nat
  entry_count :: jsval

record reduceResult =
  rr_word :: string
  rr_count :: jsval
  rr_sources :: "string list"

subsection \<open>splitTextIntoChunks\<close>

text \<open>
  \<^verbatim>\<open>Math.ceil(words.length / numChunks)\<close> for \<open>numChunks \<ge> 1\<close>. For \<open>numChunks \<le> 0\<close> the
  source computes an infinite or non-positive size, which it never uses: its loop
  \<^verbatim>\<open>for (let i = 0; i < numChunks; i++)\<close> does not run.
\<close>

definition ceilDiv :: "nat \<Rightarrow> nat \<Rightarrow> nat" where
  "ceilDiv a b = (a + b - 1) div b"

definition chunkStep :: "string list \<Rightarrow> nat \<Rightarrow> chunk list \<Rightarrow> nat \<Rightarrow> chunk list" where
  "chunkStep words chunkSize result i =
     (let start = i * chunkSize;
          end = min (start + chunkSize) (length words)
      in if start < length words
         then result @ [\<lparr>chunk_id = i, chunk_text = join '' '' (slice words start end)\<rparr>]
         else result)"

text \<open>The mapper count is an integer (what \<^verbatim>\<open>parseInt\<close> gives for a numeral).\<close>

definition splitTextIntoChunks :: "string \<Rightarrow> int \<Rightarrow> chunk list" where
  "splitTextIntoChunks text' numChunks =
     (let words = splitWhitespace (trim text');
          chunkSize = ceilDiv (length words) (nat numChunks)
      in foldl (chunkStep words chunkSize) [] [0..<nat numChunks])"

subsection \<open>mapFunction\<close>

text \<open>\<^verbatim>\<open>x || 0\<close> for the result \<open>x\<close> of a property read.\<close>

fun orZero :: "jsval lookup \<Rightarrow> jsval" where
  "orZero Absent = Num 0"
| "orZero (Own v) = (if truthy v then v else Num 0)"
| "orZero (Inherited s) = Object s"

definition countWord :: "jsval obj \<Rightarrow> string \<Rightarrow> jsval obj" where
  "countWord wordCount word =
     (if word \<noteq> []
      then objSet wordCount word (jsAdd (orZero (objGet wordCount word)) (Num 1))
      else wordCount)"

text \<open>The simulated network delay has no effect on the value returned.\<close>

definition mapFunction :: "chunk \<Rightarrow> mapResult" where
  "mapFunction ch =
     (let words = splitWhitespace (toLowerCase (chunk_text ch));
          wordCount = foldl countWord [] words
      in \<lparr>mapperId = chunk_id ch, counts = wordCount\<rparr>)"

subsection \<open>shufflePhase\<close>

type_synonym grouped = "entry list obj"

text \<open>
  One pass of the inner loop. \<^verbatim>\<open>!grouped[word]\<close> holds only when the read is
  \<^verbatim>\<open>undefined\<close> (an array and a built-in object are truthy); \<^verbatim>\<open>grouped[word].push\<close> is a
  function only on an own array, and calling what is not a function throws TypeError.
\<close>

definition shuffleEntry :: "nat \<Rightarrow> grouped \<Rightarrow> string \<times> jsval \<Rightarrow> error + grouped" where
  "shuffleEntry mid grouped kv =
     (let word = fst kv; count = snd kv;
          grouped' = (case objGet grouped word of
                        Absent \<Rightarrow> objSet grouped word []
                      | Own vs \<Rightarrow> grouped
                      | Inherited s \<Rightarrow> grouped)
      in case objGet grouped' word of
           Own vs \<Rightarrow> Inr (objSet grouped' word (vs @ [\<lparr>entry_mapperId = mid, entry_count = count\<rparr>]))
         | Absent \<Rightarrow> Inl TypeError
         | Inherited s \<Rightarrow> Inl TypeError)"

fun shuffleEntries :: "nat \<Rightarrow> grouped \<Rightarrow> (string \<times> jsval) list \<Rightarrow> error + grouped" where
  "shuffleEntries mid grouped [] = Inr grouped"
| "shuffleEntries mid grouped (kv # kvs) =
     (case shuffleEntry mid grouped kv of
        Inl e \<Rightarrow> Inl e
      | Inr grouped' \<Rightarrow> shuffleEntries mid grouped' kvs)"

fun shuffleOutputs :: "grouped \<Rightarrow> mapResult list \<Rightarrow> error + grouped" where
  "shuffleOutputs grouped [] = Inr grouped"
| "shuffleOutputs grouped (output # outputs) =
     (case shuffleEntries (mapperId output) grouped (counts output) of
        Inl e \<Rightarrow> Inl e
      | Inr grouped' \<Rightarrow> shuffleOutputs grouped' outputs)"

definition shufflePhase :: "mapResult list \<Rightarrow> error + grouped" where
  "shufflePhase mapOutputs = shuffleOutputs [] mapOutputs"

subsection \<open>reduceFunction\<close>

definition reduceFunction :: "string \<Rightarrow> entry list \<Rightarrow> reduceResult" where
  "reduceFunction word values =
     \<lparr>rr_word = word,
      rr_count = foldl (\<lambda>sum val. jsAdd sum (entry_count val)) (Num 0) values,
      rr_sources = map (\<lambda>v. ''Mapper-'' @ showNat (entry_mapperId v)) values\<rparr>"

subsection \<open>runMapReduce\<close>

text \<open>
  The component's state, and the lines of its log without their time stamps: one
  constructor for each call of \<^verbatim>\<open>addLog\<close> in the source, with the values it interpolates.
\<close>

datatype logLine =
    MasterSplitting
  | MasterCreated nat
  | MasterSending
  | MapperReceived nat
  | MapperCompleted nat
  | MasterShuffling
  | MasterGrouped nat
  | MasterDistributing
  | ReducerReceived nat string
  | MasterCollecting
  | ReducerSent string jsval
  | JobCompleted
  | JobError error

record state =
  isRunning :: bool
  chunks :: "chunk list"
  mapResults :: "mapResult list"
  reduceResults :: "reduceResult list"
  finalCounts :: "jsval obj"
  logs :: "logLine list"

definition addLog :: "logLine \<Rightarrow> state \<Rightarrow> state" where
  "addLog message s = s\<lparr>logs := logs s @ [message]\<rparr>"

definition addLogs :: "logLine list \<Rightarrow> state \<Rightarrow> state" where
  "addLogs messages s = foldl (\<lambda>s' m. addLog m s') s messages"

definition collectStep :: "jsval obj \<times> state \<Rightarrow> reduceResult \<Rightarrow> jsval obj \<times> state" where
  "collectStep fs output =
     (objSet (fst fs) (rr_word output) (rr_count output),
      addLog (ReducerSent (rr_word output) (rr_count output)) (snd fs))"

text \<open>
  The body of \<^verbatim>\<open>runMapReduce\<close> on the input text and the mapper count of the component's
  state. \<^verbatim>\<open>Promise.all\<close> returns the results in the order of the tasks, and each task logs
  its reception before its first suspension, so the log is the same for every timing.
  An exception leaves the \<^verbatim>\<open>try\<close> block for the \<^verbatim>\<open>catch\<close>, which logs it.
\<close>

definition runMapReduce :: "string \<Rightarrow> int \<Rightarrow> state" where
  "runMapReduce inputText numMappers =
     (let s0 = \<lparr>isRunning = True, chunks = [], mapResults = [], reduceResults = [],
                finalCounts = [], logs = []\<rparr>;
          s1 = addLog MasterSplitting s0;
          textChunks = splitTextIntoChunks inputText numMappers;
          s2 = addLog (MasterCreated (length textChunks)) (s1\<lparr>chunks := textChunks\<rparr>);
          s3 = addLogs (map (\<lambda>c. MapperReceived (chunk_id c)) textChunks) (addLog MasterSending s2);
          mapOutputs = map mapFunction textChunks;
          s4 = addLogs (map (\<lambda>output. MapperCompleted (mapperId output)) mapOutputs)
                 (s3\<lparr>mapResults := mapOutputs\<rparr>);
          s5 = addLog MasterShuffling s4
      in case shufflePhase mapOutputs of
           Inl e \<Rightarrow> (addLog (JobError e) s5)\<lparr>isRunning := False\<rparr>
         | Inr shuffled \<Rightarrow>
             (let s6 = addLog (MasterGrouped (length shuffled)) s5;
                  s7 = addLogs (map (\<lambda>(idx, kv). ReducerReceived idx (fst kv)) (enumerate 0 shuffled))
                         (addLog MasterDistributing s6);
                  reduceOutputs = map (\<lambda>kv. reduceFunction (fst kv) (snd kv)) shuffled;
                  s8 = addLog MasterCollecting (s7\<lparr>reduceResults := reduceOutputs\<rparr>);
                  fs = foldl collectStep ([], s8) reduceOutputs;
                  s9 = addLog JobCompleted ((snd fs)\<lparr>finalCounts := fst fs\<rparr>)
              in s9\<lparr>isRunning := False\<rparr>))"

subsection \<open>The Run button\<close>

text \<open>
  The attribute \<^verbatim>\<open>disabled={isRunning || !inputText.trim()}\<close> of the button whose
  \<^verbatim>\<open>onClick\<close> is \<^verbatim>\<open>runMapReduce\<close>: the only check of the input anywhere in the source.
\<close>

definition runDisabled :: "bool \<Rightarrow> string \<Rightarrow> bool" where
  "runDisabled running inputText = (running \<or> trim inputText = [])"

section \<open>Notions of the specification\<close>

text \<open>
  The whitespace-tokenized word sequence of a text: its maximal runs of characters that
  are not white space, in order.
\<close>

definition tokens :: "string \<Rightarrow> string list" where
  "tokens s = filter (\<lambda>w. w \<noteq> []) (splitWhitespace s)"

definition wsFree :: "string \<Rightarrow> bool" where
  "wsFree w = list_all (\<lambda>x. \<not> isWhiteSpace x) w"

text \<open>The chunk that the loop of \<^verbatim>\<open>splitTextIntoChunks\<close> pushes at index \<open>i\<close>.\<close>

definition mkChunk :: "string list \<Rightarrow> nat \<Rightarrow> nat \<Rightarrow> chunk" where
  "mkChunk words chunkSize i =
     \<lparr>chunk_id = i, chunk_text = join '' '' (take chunkSize (drop (i * chunkSize) words))\<rparr>"

text \<open>
  A key is a member of the prototype. An object whose own keys avoid these members is
  what a dictionary of words is meant to be.
\<close>

definition protoKey :: "string \<Rightarrow> bool" where
  "protoKey k = (objectPrototype k \<noteq> None)"

definition cleanKeys :: "'v obj \<Rightarrow> bool" where
  "cleanKeys ob = list_all (\<lambda>kv. \<not> protoKey (fst kv)) ob"

text \<open>
  The contributions to a word \<open>w\<close> recorded in the map results, in the order of the
  results: what the specification calls the counts for \<open>w\<close> across all input MapResults.
\<close>

definition entriesOf :: "string \<Rightarrow> mapResult \<Rightarrow> entry list" where
  "entriesOf w output =
     map (\<lambda>kv. \<lparr>entry_mapperId = mapperId output, entry_count = snd kv\<rparr>)
       (filter (\<lambda>kv. fst kv = w) (counts output))"

definition entriesFor :: "string \<Rightarrow> mapResult list \<Rightarrow> entry list" where
  "entriesFor w outputs = concat (map (entriesOf w) outputs)"

text \<open>
  The group of a word after more entries have arrived (a word without contribution has
  no group), and one pass of the inner loop of \<^verbatim>\<open>shufflePhase\<close> on the mapping that the
  object represents.
\<close>

fun merge :: "entry list option \<Rightarrow> entry list \<Rightarrow> entry list option" where
  "merge None es = (if es = [] then None else Some es)"
| "merge (Some vs) es = Some (vs @ es)"

definition addEntry :: "nat \<Rightarrow> (string \<rightharpoonup> entry list) \<Rightarrow> string \<times> jsval \<Rightarrow> (string \<rightharpoonup> entry list)" where
  "addEntry mid m kv =
     m(fst kv \<mapsto> (case m (fst kv) of None \<Rightarrow> [] | Some vs \<Rightarrow> vs)
                    @ [\<lparr>entry_mapperId = mid, entry_count = snd kv\<rparr>])"

text \<open>
  What the loop of \<^verbatim>\<open>mapFunction\<close> keeps true of every entry of \<^verbatim>\<open>wordCount\<close>: under a
  key that is a member of the prototype the value is a non-empty string, under any other
  key it is a number that is at least 1.
\<close>

definition goodEntry :: "string \<times> jsval \<Rightarrow> bool" where
  "goodEntry kv =
     (if protoKey (fst kv) then (case snd kv of Str s \<Rightarrow> s \<noteq> [] | _ \<Rightarrow> False)
      else (case snd kv of Num k \<Rightarrow> 1 \<le> k | _ \<Rightarrow> False))"

section \<open>Tokenisation\<close>

lemma split_not_Nil: "splitWhitespace s \<noteq> []"
  by (induction s rule: splitWhitespace.induct) (auto split: list.splits)

lemma split_wsfree: "w \<in> set (splitWhitespace s) \<Longrightarrow> x \<in> set w \<Longrightarrow> \<not> isWhiteSpace x"
  by (induction s arbitrary: w rule: splitWhitespace.induct) (fastforce split: if_splits list.splits)+

lemma split_hd: "hd (splitWhitespace s) = [] \<longleftrightarrow> s = [] \<or> isWhiteSpace (hd s)"
  by (cases s) (auto split: list.splits)

lemma split_tl: "s \<noteq> [] \<Longrightarrow> \<not> isWhiteSpace (last s) \<Longrightarrow> [] \<notin> set (tl (splitWhitespace s))"
proof (induction s rule: splitWhitespace.induct)
  case 1
  then show ?case by simp
next
  case (2 c cs)
  show ?case
  proof (cases "isWhiteSpace c")
    case True
    let ?s = "dropWhile isWhiteSpace cs"
    from True "2.prems" have cs: "cs \<noteq> []" "\<not> isWhiteSpace (last cs)" by (auto split: if_splits)
    then have ne: "?s \<noteq> []"
      by (metis dropWhile_eq_Nil_conv last_in_set)
    have l: "last ?s = last cs"
      by (rule dropWhile_last[where x = "last cs"]) (use cs in auto)
    have h: "\<not> isWhiteSpace (hd ?s)" using ne by (simp add: hd_dropWhile)
    from "2.IH"(1)[OF True ne] l cs have t: "[] \<notin> set (tl (splitWhitespace ?s))" by simp
    from h ne split_hd[of ?s] have "hd (splitWhitespace ?s) \<noteq> []" by simp
    with t split_not_Nil[of ?s] have "[] \<notin> set (splitWhitespace ?s)"
      by (cases "splitWhitespace ?s") auto
    with True show ?thesis by simp
  next
    case False
    show ?thesis
    proof (cases "cs = []")
      case True
      with False show ?thesis by simp
    next
      case ne: False
      with "2.prems" have "\<not> isWhiteSpace (last cs)" by simp
      from "2.IH"(2)[OF False ne this] False show ?thesis
        by (auto split: list.splits)
    qed
  qed
qed

lemma tokens_dropWhile: "tokens (dropWhile isWhiteSpace s) = tokens s"
  by (cases s) (auto simp: tokens_def)

lemma dropWhile_all: "list_all P xs \<Longrightarrow> dropWhile P xs = []"
  by (simp add: list_all_iff)

lemma tokens_ws_cons: "isWhiteSpace c \<Longrightarrow> tokens (c # s) = tokens (dropWhile isWhiteSpace s)"
  by (simp add: tokens_def)

lemma tokens_ws_only: "list_all isWhiteSpace r \<Longrightarrow> tokens r = []"
  by (cases r) (auto simp: tokens_def dropWhile_all)

lemma tokens_append_ws: "list_all isWhiteSpace r \<Longrightarrow> tokens (p @ r) = tokens p"
proof (induction p rule: splitWhitespace.induct)
  case 1
  then show ?case using tokens_ws_only[of r] by (simp add: tokens_def)
next
  case (2 c cs)
  show ?case
  proof (cases "isWhiteSpace c")
    case True
    show ?thesis
    proof (cases "list_all isWhiteSpace cs")
      case all: True
      then have "dropWhile isWhiteSpace (cs @ r) = []" "dropWhile isWhiteSpace cs = []"
        using "2.prems" by (simp_all add: list_all_iff)
      with tokens_ws_cons[OF True, of "cs @ r"] tokens_ws_cons[OF True, of cs]
      show ?thesis by (simp only: append_Cons)
    next
      case False
      then have "dropWhile isWhiteSpace (cs @ r) = dropWhile isWhiteSpace cs @ r"
        by (auto simp: list_all_iff dropWhile_append1)
      with "2.IH"(1)[OF True "2.prems"] tokens_ws_cons[OF True, of "cs @ r"] tokens_ws_cons[OF True, of cs]
      show ?thesis by (simp only: append_Cons)
    qed
  next
    case False
    from "2.IH"(2)[OF False "2.prems"]
    have eq: "filter (\<lambda>w. w \<noteq> []) (splitWhitespace (cs @ r)) = filter (\<lambda>w. w \<noteq> []) (splitWhitespace cs)"
      by (simp add: tokens_def)
    obtain w ws where a: "splitWhitespace (cs @ r) = w # ws"
      using split_not_Nil[of "cs @ r"] by (cases "splitWhitespace (cs @ r)") auto
    obtain v vs where b: "splitWhitespace cs = v # vs"
      using split_not_Nil[of cs] by (cases "splitWhitespace cs") auto
    have "(w = []) = (v = [])"
      using split_hd[of "cs @ r"] split_hd[of cs] a b "2.prems"
      by (cases cs; cases r) (auto simp: list_all_iff)
    with eq a b have "w = v \<and> filter (\<lambda>w. w \<noteq> []) ws = filter (\<lambda>w. w \<noteq> []) vs"
      by (auto split: if_splits)
    with a b False show ?thesis by (simp add: tokens_def)
  qed
qed

lemma tokens_trim: "tokens (trim s) = tokens s"
proof -
  let ?d = "dropWhile isWhiteSpace s"
  have "?d = trim s @ rev (takeWhile isWhiteSpace (rev ?d))"
    by (metis rev_append rev_rev_ident takeWhile_dropWhile_id trim_def)
  moreover have "list_all isWhiteSpace (rev (takeWhile isWhiteSpace (rev ?d)))"
    by (auto simp: list_all_iff dest: set_takeWhileD)
  ultimately have "tokens ?d = tokens (trim s)"
    using tokens_append_ws by metis
  then show ?thesis by (simp add: tokens_dropWhile)
qed


lemma trim_ends: "trim s \<noteq> [] \<Longrightarrow> \<not> isWhiteSpace (hd (trim s)) \<and> \<not> isWhiteSpace (last (trim s))"
proof -
  assume ne: "trim s \<noteq> []"
  let ?d = "dropWhile isWhiteSpace s"
  let ?e = "dropWhile isWhiteSpace (rev ?d)"
  from ne have e: "?e \<noteq> []" by (simp add: trim_def)
  then have d: "?d \<noteq> []" by (auto dest: set_dropWhileD)
  have "last (trim s) = hd ?e" using e by (simp add: trim_def last_rev)
  moreover have "\<not> isWhiteSpace (hd ?e)" using e by (rule hd_dropWhile)
  moreover have "hd (trim s) = last ?e" using e by (simp add: trim_def hd_rev)
  moreover have "\<not> isWhiteSpace (hd ?d)" using d by (rule hd_dropWhile)
  moreover have "last ?e = last (rev ?d)"
    by (rule dropWhile_last[where x = "hd ?d"]) (use d \<open>\<not> isWhiteSpace (hd ?d)\<close> in auto)
  moreover have "last (rev ?d) = hd ?d" using d by (simp add: last_rev)
  ultimately show ?thesis by simp
qed

lemma split_no_empty:
  assumes "s \<noteq> []" "\<not> isWhiteSpace (hd s)" "\<not> isWhiteSpace (last s)"
  shows "[] \<notin> set (splitWhitespace s)"
proof -
  from assms split_hd[of s] have "hd (splitWhitespace s) \<noteq> []" by simp
  moreover from assms have "[] \<notin> set (tl (splitWhitespace s))" by (simp add: split_tl)
  ultimately show ?thesis using split_not_Nil[of s] by (cases "splitWhitespace s") auto
qed

lemma trim_words: "splitWhitespace (trim t) = (if tokens t = [] then [[]] else tokens t)"
proof (cases "trim t = []")
  case True
  then have "tokens (trim t) = []" by (simp add: tokens_def)
  then have "tokens t = []" by (simp only: tokens_trim)
  with True show ?thesis by simp
next
  case False
  with trim_ends[of t] have "[] \<notin> set (splitWhitespace (trim t))" by (simp add: split_no_empty)
  then have "tokens (trim t) = splitWhitespace (trim t)" by (simp add: tokens_def filter_id_conv) metis
  then show ?thesis using split_not_Nil[of "trim t"] by (simp add: tokens_trim)
qed

lemma split_word: "wsFree w \<Longrightarrow> splitWhitespace w = [w]"
  by (induction w) (auto simp: wsFree_def)

lemma split_word_sep:
  "wsFree w \<Longrightarrow> isWhiteSpace x \<Longrightarrow> splitWhitespace (w @ x # s) = w # splitWhitespace (dropWhile isWhiteSpace s)"
  by (induction w) (auto simp: wsFree_def)

lemma space_ws: "isWhiteSpace (CHR '' '')"
  by (simp add: isWhiteSpace_def)

lemma tokens_props: "w \<in> set (tokens t) \<Longrightarrow> w \<noteq> [] \<and> wsFree w"
  using split_wsfree[of w t] by (auto simp: tokens_def wsFree_def list_all_iff)

lemma join_hd: "ws \<noteq> [] \<Longrightarrow> hd ws \<noteq> [] \<Longrightarrow> join sep ws \<noteq> [] \<and> hd (join sep ws) = hd (hd ws)"
  by (induction sep ws rule: join.induct) auto

lemma split_join:
  "ws \<noteq> [] \<Longrightarrow> list_all (\<lambda>w. w \<noteq> [] \<and> wsFree w) ws \<Longrightarrow> splitWhitespace (join '' '' ws) = ws"
proof (induction "'' ''" ws rule: join.induct)
  case 1
  then show ?case by simp
next
  case (2 w)
  then show ?case by (simp add: split_word)
next
  case (3 w v ws)
  then have w: "wsFree w" and v: "v \<noteq> []" "wsFree v" by simp_all
  let ?r = "join '' '' (v # ws)"
  from v join_hd[of "v # ws" "'' ''"] have "?r \<noteq> []" "hd ?r = hd v" by simp_all
  moreover from v have "\<not> isWhiteSpace (hd v)" by (cases v) (auto simp: wsFree_def)
  ultimately have "dropWhile isWhiteSpace ?r = ?r" by (cases ?r) auto
  moreover have "splitWhitespace (w @ CHR '' '' # ?r) = w # splitWhitespace (dropWhile isWhiteSpace ?r)"
    using w space_ws by (rule split_word_sep)
  ultimately show ?case using 3 by simp
qed

section \<open>Chunks\<close>

lemma slice_chunk:
  "slice ws (i * cs) (min (i * cs + cs) (length ws)) = take cs (drop (i * cs) ws)"
  by (cases "i * cs + cs \<le> length ws") (simp_all add: slice_def min_def)

lemma foldl_chunkStep:
  "foldl (chunkStep ws cs) acc is = acc @ map (mkChunk ws cs) (filter (\<lambda>i. i * cs < length ws) is)"
  by (induction "is" arbitrary: acc) (simp_all add: chunkStep_def Let_def slice_chunk mkChunk_def)

lemma start_less_iff: "1 \<le> cs \<Longrightarrow> (i * cs < len) = (i < ceilDiv len cs)"
proof -
  assume cs: "1 \<le> cs"
  have "(i < ceilDiv len cs) = (Suc i \<le> (len + cs - 1) div cs)" by (simp add: ceilDiv_def Suc_le_eq)
  also have "\<dots> = (Suc i * cs \<le> len + cs - 1)" using cs by (simp add: less_eq_div_iff_mult_less_eq)
  also have "\<dots> = (i * cs < len)" using cs by auto
  finally show ?thesis by simp
qed

lemma filter_less_upt: "m \<le> n \<Longrightarrow> filter (\<lambda>i. i < m) [0..<n] = [0..<m]"
  by (induction n) (auto simp: le_Suc_eq)

lemma ceilDiv_pos: "1 \<le> n \<Longrightarrow> 1 \<le> len \<Longrightarrow> 1 \<le> ceilDiv len n"
  by (simp add: ceilDiv_def Suc_le_eq div_greater_zero_iff)

lemma ceilDiv_covers: "1 \<le> n \<Longrightarrow> len \<le> n * ceilDiv len n"
proof -
  assume n: "1 \<le> n"
  have "len + n - 1 = n * ((len + n - 1) div n) + (len + n - 1) mod n" by simp
  moreover have "(len + n - 1) mod n < n" using n by simp
  ultimately show ?thesis unfolding ceilDiv_def by linarith
qed

lemma ceilDiv_le: "1 \<le> cs \<Longrightarrow> len \<le> n * cs \<Longrightarrow> ceilDiv len cs \<le> n"
proof -
  assume cs: "1 \<le> cs" and le: "len \<le> n * cs"
  have "\<not> n < ceilDiv len cs" using start_less_iff[OF cs, of n len] le by simp
  then show ?thesis by simp
qed

lemma split_as_map:
  assumes "1 \<le> n"
  shows "splitTextIntoChunks t n =
     map (mkChunk (splitWhitespace (trim t)) (ceilDiv (length (splitWhitespace (trim t))) (nat n)))
       [0..<ceilDiv (length (splitWhitespace (trim t))) (ceilDiv (length (splitWhitespace (trim t))) (nat n))]"
proof -
  let ?ws = "splitWhitespace (trim t)"
  let ?cs = "ceilDiv (length ?ws) (nat n)"
  have len: "1 \<le> length ?ws" using split_not_Nil[of "trim t"] by (cases ?ws) auto
  have n: "1 \<le> nat n" using assms by simp
  have cs: "1 \<le> ?cs" using n len by (rule ceilDiv_pos)
  have "ceilDiv (length ?ws) ?cs \<le> nat n" using cs ceilDiv_covers[OF n] by (rule ceilDiv_le)
  then have "filter (\<lambda>i. i * ?cs < length ?ws) [0..<nat n] = [0..<ceilDiv (length ?ws) ?cs]"
    by (simp add: start_less_iff[OF cs] filter_less_upt)
  then show ?thesis by (simp add: splitTextIntoChunks_def Let_def foldl_chunkStep)
qed

lemma concat_takes: "concat (map (\<lambda>i. take cs (drop (i * cs) xs)) [0..<m]) = take (m * cs) xs"
proof (induction m)
  case 0
  then show ?case by simp
next
  case (Suc m)
  have "take (Suc m * cs) xs = take (m * cs + cs) xs" by (simp add: add.commute)
  also have "\<dots> = take (m * cs) xs @ take cs (drop (m * cs) xs)" by (rule take_add)
  finally show ?case using Suc by simp
qed


lemma chunk_words:
  assumes "ws = [[]] \<or> (ws \<noteq> [] \<and> list_all (\<lambda>w. w \<noteq> [] \<and> wsFree w) ws)"
    and "i * cs < length ws" and "1 \<le> cs"
  shows "splitWhitespace (chunk_text (mkChunk ws cs i)) = take cs (drop (i * cs) ws)"
proof -
  let ?sl = "take cs (drop (i * cs) ws)"
  from assms(2,3) have ne: "?sl \<noteq> []" by (simp add: take_eq_Nil)
  from assms(1) show ?thesis
  proof
    assume e: "ws = [[]]"
    with assms(2) have "i * cs = 0" by simp
    with e assms(3) have "?sl = [[]]" by (cases cs) simp_all
    then show ?thesis by (simp add: mkChunk_def)
  next
    assume "ws \<noteq> [] \<and> list_all (\<lambda>w. w \<noteq> [] \<and> wsFree w) ws"
    then have "list_all (\<lambda>w. w \<noteq> [] \<and> wsFree w) ?sl"
      by (auto simp: list_all_iff dest!: in_set_takeD in_set_dropD)
    with ne show ?thesis by (simp add: mkChunk_def split_join)
  qed
qed

lemma trim_words_good:
  "splitWhitespace (trim t) = [[]] \<or>
   (splitWhitespace (trim t) \<noteq> [] \<and> list_all (\<lambda>w. w \<noteq> [] \<and> wsFree w) (splitWhitespace (trim t)))"
  using tokens_props[of _ t] by (auto simp: trim_words list_all_iff)



lemma trim_ws_only: "list_all isWhiteSpace t \<Longrightarrow> trim t = []"
  by (simp add: trim_def dropWhile_all)

lemma trim_empty_iff: "(trim t = []) = list_all isWhiteSpace t"
proof
  assume e: "trim t = []"
  let ?d = "dropWhile isWhiteSpace t"
  have "?d = []"
  proof (rule ccontr)
    assume ne: "?d \<noteq> []"
    then have "\<not> isWhiteSpace (hd ?d)" by (rule hd_dropWhile)
    moreover from e have "\<forall>x\<in>set ?d. isWhiteSpace x" by (simp add: trim_def)
    ultimately show False using ne by (cases ?d) auto
  qed
  then show "list_all isWhiteSpace t" by (simp add: list_all_iff)
qed (rule trim_ws_only)

lemma split_ws_only:
  assumes "1 \<le> n" "list_all isWhiteSpace t"
  shows "splitTextIntoChunks t n = [\<lparr>chunk_id = 0, chunk_text = []\<rparr>]"
proof -
  have "splitWhitespace (trim t) = [[]]" using assms(2) by (simp add: trim_ws_only)
  moreover have "ceilDiv 1 (nat n) = 1" using assms(1) by (simp add: ceilDiv_def)
  ultimately show ?thesis using split_as_map[OF assms(1), of t]
    by (simp add: ceilDiv_def mkChunk_def)
qed

lemma mapFunction_empty: "mapFunction \<lparr>chunk_id = i, chunk_text = []\<rparr> = \<lparr>mapperId = i, counts = []\<rparr>"
  by (simp add: mapFunction_def toLowerCase_def countWord_def)

lemma run_ws_only:
  assumes "1 \<le> n" "list_all isWhiteSpace t"
  shows "runMapReduce t n =
    \<lparr>isRunning = False, chunks = [\<lparr>chunk_id = 0, chunk_text = []\<rparr>],
     mapResults = [\<lparr>mapperId = 0, counts = []\<rparr>], reduceResults = [], finalCounts = [],
     logs = [MasterSplitting, MasterCreated 1, MasterSending, MapperReceived 0, MapperCompleted 0,
             MasterShuffling, MasterGrouped 0, MasterDistributing, MasterCollecting, JobCompleted]\<rparr>"
  by (simp add: runMapReduce_def split_ws_only[OF assms] mapFunction_empty shufflePhase_def
      addLog_def addLogs_def Let_def)

lemma chunks_split:
  assumes "1 \<le> n"
  shows "concat (map (\<lambda>c. splitWhitespace (chunk_text c)) (splitTextIntoChunks t n)) = splitWhitespace (trim t)
       \<and> map chunk_id (splitTextIntoChunks t n) = [0..<length (splitTextIntoChunks t n)]
       \<and> concat (map (\<lambda>c. tokens (chunk_text c)) (splitTextIntoChunks t n)) = tokens t"
proof -
  let ?ws = "splitWhitespace (trim t)"
  let ?cs = "ceilDiv (length ?ws) (nat n)"
  let ?m = "ceilDiv (length ?ws) ?cs"
  have len: "1 \<le> length ?ws" using split_not_Nil[of "trim t"] by (cases ?ws) auto
  have n: "1 \<le> nat n" using assms by simp
  have cs: "1 \<le> ?cs" using n len by (rule ceilDiv_pos)
  have eq: "splitTextIntoChunks t n = map (mkChunk ?ws ?cs) [0..<?m]" using assms by (rule split_as_map)
  have each: "\<And>i. i < ?m \<Longrightarrow> splitWhitespace (chunk_text (mkChunk ?ws ?cs i)) = take ?cs (drop (i * ?cs) ?ws)"
    using trim_words_good[of t] cs by (intro chunk_words) (simp_all add: start_less_iff)
  have cover: "length ?ws \<le> ?m * ?cs" using ceilDiv_covers[OF cs, of "length ?ws"] by (simp add: mult.commute)
  have "map (\<lambda>i. splitWhitespace (chunk_text (mkChunk ?ws ?cs i))) [0..<?m]
      = map (\<lambda>i. take ?cs (drop (i * ?cs) ?ws)) [0..<?m]"
    by (rule map_cong[OF refl]) (simp add: each)
  then have "concat (map (\<lambda>c. splitWhitespace (chunk_text c)) (splitTextIntoChunks t n))
      = concat (map (\<lambda>i. take ?cs (drop (i * ?cs) ?ws)) [0..<?m])"
    by (simp only: eq map_map comp_def)
  also have "\<dots> = ?ws" using cover by (simp add: concat_takes)
  finally have a: "concat (map (\<lambda>c. splitWhitespace (chunk_text c)) (splitTextIntoChunks t n)) = ?ws" .
  have b: "map chunk_id (splitTextIntoChunks t n) = [0..<length (splitTextIntoChunks t n)]"
    unfolding eq by (simp add: comp_def mkChunk_def map_idI)
  have "concat (map (\<lambda>c. tokens (chunk_text c)) (splitTextIntoChunks t n))
      = filter (\<lambda>w. w \<noteq> []) (concat (map (\<lambda>c. splitWhitespace (chunk_text c)) (splitTextIntoChunks t n)))"
    by (simp add: tokens_def filter_concat comp_def)
  also have "\<dots> = tokens t" unfolding a using tokens_trim[of t] by (simp add: tokens_def)
  finally show ?thesis using a b by simp
qed

lemma chunks_words:
  "1 \<le> n \<Longrightarrow> concat (map (\<lambda>c. splitWhitespace (chunk_text c)) (splitTextIntoChunks t n))
     = splitWhitespace (trim t)"
  using chunks_split[of n t] by simp

lemma join_append:
  "xs \<noteq> [] \<Longrightarrow> ys \<noteq> [] \<Longrightarrow> join sep (xs @ ys) = join sep xs @ sep @ join sep ys"
  by (induction sep xs rule: join.induct) (auto simp: neq_Nil_conv)

lemma join_concat:
  "list_all (\<lambda>xs. xs \<noteq> []) xss \<Longrightarrow> join sep (map (join sep) xss) = join sep (concat xss)"
proof (induction xss)
  case Nil
  then show ?case by simp
next
  case (Cons xs xss)
  show ?case
  proof (cases xss)
    case Nil
    then show ?thesis by simp
  next
    case (Cons ys yss)
    with Cons.prems have "concat xss \<noteq> []" "xs \<noteq> []" by auto
    with Cons.IH Cons.prems Cons show ?thesis by (simp add: join_append)
  qed
qed

lemma chunks_join:
  assumes "1 \<le> n"
  shows "join '' '' (map chunk_text (splitTextIntoChunks t n)) = join '' '' (splitWhitespace (trim t))"
proof -
  let ?ws = "splitWhitespace (trim t)"
  let ?cs = "ceilDiv (length ?ws) (nat n)"
  let ?m = "ceilDiv (length ?ws) ?cs"
  have len: "1 \<le> length ?ws" using split_not_Nil[of "trim t"] by (cases ?ws) auto
  have n: "1 \<le> nat n" using assms by simp
  have cs: "1 \<le> ?cs" using n len by (rule ceilDiv_pos)
  have eq: "splitTextIntoChunks t n = map (mkChunk ?ws ?cs) [0..<?m]" using assms by (rule split_as_map)
  have cover: "length ?ws \<le> ?m * ?cs" using ceilDiv_covers[OF cs, of "length ?ws"] by (simp add: mult.commute)
  have ne: "list_all (\<lambda>xs. xs \<noteq> []) (map (\<lambda>i. take ?cs (drop (i * ?cs) ?ws)) [0..<?m])"
  proof -
    have "take ?cs (drop (i * ?cs) ?ws) \<noteq> []" if "i < ?m" for i
    proof -
      from that have "i * ?cs < length ?ws" by (simp only: start_less_iff[OF cs])
      with cs show ?thesis by (simp add: take_eq_Nil)
    qed
    then show ?thesis by (simp add: list_all_iff)
  qed
  have "map chunk_text (splitTextIntoChunks t n)
      = map (join '' '') (map (\<lambda>i. take ?cs (drop (i * ?cs) ?ws)) [0..<?m])"
    unfolding eq by (simp add: mkChunk_def comp_def)
  then have "join '' '' (map chunk_text (splitTextIntoChunks t n))
      = join '' '' (concat (map (\<lambda>i. take ?cs (drop (i * ?cs) ?ws)) [0..<?m]))"
    using join_concat[OF ne] by simp
  also have "\<dots> = join '' '' ?ws" using cover by (simp add: concat_takes)
  finally show ?thesis .
qed

text \<open>
  C1. For every input text and every mapper count \<open>n \<ge> 1\<close>, the texts of the chunks that
  \<^verbatim>\<open>splitTextIntoChunks\<close> returns, taken in the order of their indices (which is the
  order of the list: the ids are \<open>0, 1, 2, \<dots>\<close>), give back the word sequence of the
  text: the words the function itself splits the trimmed text into, and likewise the
  whitespace-tokenized word sequence \<^const>\<open>tokens\<close> of the original text. Joined by single
  spaces, the chunk texts are the words of the text joined by single spaces.
\<close>

theorem chunks_reproduce_words:
  assumes "1 \<le> n"
  shows "concat (map (\<lambda>c. splitWhitespace (chunk_text c)) (splitTextIntoChunks t n)) = splitWhitespace (trim t)
       \<and> map chunk_id (splitTextIntoChunks t n) = [0..<length (splitTextIntoChunks t n)]
       \<and> concat (map (\<lambda>c. tokens (chunk_text c)) (splitTextIntoChunks t n)) = tokens t
       \<and> join '' '' (map chunk_text (splitTextIntoChunks t n)) = join '' '' (splitWhitespace (trim t))"
  using chunks_split[OF assms] chunks_join[OF assms] by blast

theorem chunks_reproduce_words_witness:
  "concat (map (\<lambda>c. tokens (chunk_text c)) (splitTextIntoChunks ''  to be  or not to be '' 4))
     = [''to'', ''be'', ''or'', ''not'', ''to'', ''be'']"
proof -
  have "tokens ''  to be  or not to be '' = [''to'', ''be'', ''or'', ''not'', ''to'', ''be'']"
    by code_simp
  with chunks_reproduce_words[of 4 "''  to be  or not to be ''"] show ?thesis by simp
qed



text \<open>
  C10. For every \<open>n \<ge> 1\<close>, \<^verbatim>\<open>splitTextIntoChunks\<close> on an empty or whitespace-only text
  does not fail: it returns the single chunk with id 0 and empty text, and the pipeline
  on that input runs to its last log line, with no error logged and empty final counts.
\<close>

theorem empty_input_completes:
  assumes "1 \<le> n" and "list_all isWhiteSpace t"
  shows "splitTextIntoChunks t n = [\<lparr>chunk_id = 0, chunk_text = ''''\<rparr>]
     \<and> finalCounts (runMapReduce t n) = []
     \<and> last (logs (runMapReduce t n)) = JobCompleted
     \<and> list_all (\<lambda>l. l \<noteq> JobError TypeError) (logs (runMapReduce t n))"
  by (simp add: split_ws_only[OF assms] run_ws_only[OF assms])

theorem empty_input_completes_witness:
  "splitTextIntoChunks '' '' 2 = [\<lparr>chunk_id = 0, chunk_text = ''''\<rparr>]
     \<and> finalCounts (runMapReduce '' '' 2) = []
     \<and> last (logs (runMapReduce '' '' 2)) = JobCompleted"
proof -
  have "list_all isWhiteSpace '' ''" by (simp add: isWhiteSpace_def)
  moreover have "(1::int) \<le> 2" by simp
  ultimately show ?thesis using empty_input_completes[of 2 "'' ''"] by simp
qed

text \<open>
  C5 says that splitting an empty or whitespace-only text fails with EmptyInputError and
  that splitting with \<open>n \<le> 0\<close> fails with InvalidConfigError. The source has no such
  errors: on the empty text with three mappers it returns one empty chunk, on a text
  with zero mappers it returns no chunk, and in both cases the job runs to completion.
\<close>

theorem degenerate_inputs_no_error_counterexample:
  "splitTextIntoChunks '''' 3 = [\<lparr>chunk_id = 0, chunk_text = ''''\<rparr>]
   \<and> last (logs (runMapReduce '''' 3)) = JobCompleted
   \<and> splitTextIntoChunks ''hello world'' 0 = []
   \<and> last (logs (runMapReduce ''hello world'' 0)) = JobCompleted"
  by code_simp

text \<open>
  C5, as the code has it, for the empty text. For \<open>n \<ge> 1\<close>, splitting an empty or
  whitespace-only text raises no error: it returns exactly one chunk, with id 0 and empty
  text. A job run on such a text logs no error and completes, with one empty map result,
  no reduce result and empty final counts. The Run button, whose click starts the job, is
  disabled exactly when a job is running or the text is empty or whitespace-only, so the
  page starts no job on such a text. (What happens for \<open>n \<le> 0\<close> is left out here.)
\<close>

theorem degenerate_inputs_no_error:
  "(1 \<le> n \<and> list_all isWhiteSpace t \<longrightarrow>
      splitTextIntoChunks t n = [\<lparr>chunk_id = 0, chunk_text = ''''\<rparr>]
      \<and> runMapReduce t n =
          \<lparr>isRunning = False, chunks = [\<lparr>chunk_id = 0, chunk_text = ''''\<rparr>],
           mapResults = [\<lparr>mapperId = 0, counts = []\<rparr>], reduceResults = [], finalCounts = [],
           logs = [MasterSplitting, MasterCreated 1, MasterSending, MapperReceived 0,
                   MapperCompleted 0, MasterShuffling, MasterGrouped 0, MasterDistributing,
                   MasterCollecting, JobCompleted]\<rparr>)
   \<and> runDisabled running t = (running \<or> list_all isWhiteSpace t)"
proof -
  have "splitTextIntoChunks t n = [\<lparr>chunk_id = 0, chunk_text = ''''\<rparr>]"
    if "1 \<le> n" "list_all isWhiteSpace t"
    using that by (rule split_ws_only)
  moreover have "runMapReduce t n =
          \<lparr>isRunning = False, chunks = [\<lparr>chunk_id = 0, chunk_text = ''''\<rparr>],
           mapResults = [\<lparr>mapperId = 0, counts = []\<rparr>], reduceResults = [], finalCounts = [],
           logs = [MasterSplitting, MasterCreated 1, MasterSending, MapperReceived 0,
                   MapperCompleted 0, MasterShuffling, MasterGrouped 0, MasterDistributing,
                   MasterCollecting, JobCompleted]\<rparr>"
    if "1 \<le> n" "list_all isWhiteSpace t"
    using that by (rule run_ws_only)
  moreover have "runDisabled running t = (running \<or> list_all isWhiteSpace t)"
    by (simp add: runDisabled_def trim_empty_iff)
  ultimately show ?thesis by blast
qed

theorem degenerate_inputs_no_error_witness:
  "splitTextIntoChunks [CHR 0x09, CHR 0x20] 1 = [\<lparr>chunk_id = 0, chunk_text = ''''\<rparr>]
   \<and> finalCounts (runMapReduce [CHR 0x09, CHR 0x20] 1) = []
   \<and> last (logs (runMapReduce [CHR 0x09, CHR 0x20] 1)) = JobCompleted
   \<and> runDisabled False [CHR 0x09, CHR 0x20]"
proof -
  have "list_all isWhiteSpace [CHR 0x09, CHR 0x20]" by (simp add: isWhiteSpace_def)
  moreover have "(1::int) \<le> 1" by simp
  ultimately show ?thesis
    using degenerate_inputs_no_error[of 1 "[CHR 0x09, CHR 0x20]" False] by simp
qed

section \<open>Plain objects and the shuffle\<close>

lemma proto_key_proto: "protoKey ''__proto__''"
  by (simp add: protoKey_def objectPrototype_def)

lemma map_of_objInsert:
  "k \<notin> fst ` set ps \<Longrightarrow> map_of (objInsert k v ps) = (map_of ps)(k \<mapsto> v)"
  by (induction ps) (auto simp: fun_upd_twist)

lemma set_objInsert: "set (objInsert k v ps) = insert (k, v) (set ps)"
  by (induction k v ps rule: objInsert.induct) auto

lemma keys_objInsert: "fst ` set (objInsert k v ps) = insert k (fst ` set ps)"
  by (simp add: set_objInsert)

lemma map_of_replace:
  "map_of (map (\<lambda>(k', v'). if k' = k then (k', v) else (k', v')) ps) k'' =
     (if k'' = k then (if k \<in> fst ` set ps then Some v else None) else map_of ps k'')"
  by (induction ps) (force split: prod.splits)+

lemma keys_replace:
  "fst ` (\<lambda>(k', v'). if k' = k then (k', v) else (k', v')) ` set ps = fst ` set ps"
proof -
  have "fst \<circ> (\<lambda>(k', v'). if k' = k then (k', v) else (k', v')) = fst"
    by (rule ext) (simp split: prod.splits)
  then show ?thesis by (simp add: image_comp)
qed

lemma map_of_objSet:
  "k \<noteq> ''__proto__'' \<Longrightarrow> map_of (objSet ob k v) = (map_of ob)(k \<mapsto> v)"
  by (rule ext) (auto simp: objSet_def map_of_objInsert map_of_replace)

lemma keys_objSet:
  "k \<noteq> ''__proto__'' \<Longrightarrow> fst ` set (objSet ob k v) = insert k (fst ` set ob)"
  by (simp add: objSet_def keys_objInsert keys_replace insert_absorb)

lemma objGet_own: "map_of ob k = Some v \<Longrightarrow> objGet ob k = Own v"
  by (simp add: objGet_def)

lemma objGet_absent: "map_of ob k = None \<Longrightarrow> \<not> protoKey k \<Longrightarrow> objGet ob k = Absent"
  by (simp add: objGet_def protoKey_def)

lemma objGet_inherited:
  "map_of ob k = None \<Longrightarrow> protoKey k \<Longrightarrow> \<exists>s. objGet ob k = Inherited s"
  by (auto simp: objGet_def protoKey_def)

lemma shuffleEntry_ok:
  assumes "\<not> protoKey (fst kv)"
  shows "\<exists>g'. shuffleEntry mid g kv = Inr g' \<and> map_of g' = addEntry mid (map_of g) kv
           \<and> fst ` set g' = insert (fst kv) (fst ` set g)"
proof -
  from assms proto_key_proto have np: "fst kv \<noteq> ''__proto__''" by auto
  show ?thesis
  proof (cases "map_of g (fst kv)")
    case None
    then have a: "objGet g (fst kv) = Absent" using assms by (rule objGet_absent)
    have b: "objGet (objSet g (fst kv) []) (fst kv) = Own []"
      by (rule objGet_own) (simp add: map_of_objSet[OF np])
    show ?thesis using None
      by (simp add: shuffleEntry_def Let_def a b map_of_objSet[OF np] keys_objSet[OF np] addEntry_def)
  next
    case (Some vs)
    then have a: "objGet g (fst kv) = Own vs" by (rule objGet_own)
    from Some have "fst kv \<in> fst ` set g" by (metis domI dom_map_of_conv_image_fst)
    then show ?thesis using Some
      by (auto simp: shuffleEntry_def Let_def a map_of_objSet[OF np] keys_objSet[OF np] addEntry_def)
  qed
qed

lemma shuffleEntry_fail:
  assumes "protoKey (fst kv)" "cleanKeys g"
  shows "shuffleEntry mid g kv = Inl TypeError"
proof -
  from assms have "fst kv \<notin> fst ` set g" by (auto simp: cleanKeys_def list_all_iff)
  then have "map_of g (fst kv) = None" by (simp add: map_of_eq_None_iff)
  from objGet_inherited[OF this assms(1)] obtain s where "objGet g (fst kv) = Inherited s" ..
  then show ?thesis by (simp add: shuffleEntry_def Let_def)
qed

lemma cleanKeys_iff: "cleanKeys g = (\<forall>k\<in>fst ` set g. \<not> protoKey k)"
  by (auto simp: cleanKeys_def list_all_iff)

lemma shuffleEntries_ok:
  "cleanKeys kvs \<Longrightarrow> cleanKeys g \<Longrightarrow>
   \<exists>g'. shuffleEntries mid g kvs = Inr g' \<and> map_of g' = foldl (addEntry mid) (map_of g) kvs
         \<and> cleanKeys g'"
proof (induction kvs arbitrary: g)
  case Nil
  then show ?case by simp
next
  case (Cons kv kvs)
  from Cons.prems have np: "\<not> protoKey (fst kv)" and rest: "cleanKeys kvs"
    by (simp_all add: cleanKeys_def)
  from shuffleEntry_ok[OF np, of mid g] obtain g1 where
    g1: "shuffleEntry mid g kv = Inr g1" "map_of g1 = addEntry mid (map_of g) kv"
        "fst ` set g1 = insert (fst kv) (fst ` set g)" by blast
  with np Cons.prems(2) have "cleanKeys g1" by (simp add: cleanKeys_iff)
  from Cons.IH[OF rest this] g1 show ?case by simp
qed

lemma shuffleEntries_fail:
  "\<not> cleanKeys kvs \<Longrightarrow> cleanKeys g \<Longrightarrow> shuffleEntries mid g kvs = Inl TypeError"
proof (induction kvs arbitrary: g)
  case Nil
  then show ?case by (simp add: cleanKeys_def)
next
  case (Cons kv kvs)
  show ?case
  proof (cases "protoKey (fst kv)")
    case True
    then show ?thesis using Cons.prems(2) by (simp add: shuffleEntry_fail)
  next
    case False
    with Cons.prems(1) have rest: "\<not> cleanKeys kvs" by (simp add: cleanKeys_def)
    from shuffleEntry_ok[OF False, of mid g] obtain g1 where
      g1: "shuffleEntry mid g kv = Inr g1"
          "fst ` set g1 = insert (fst kv) (fst ` set g)" by blast
    with False Cons.prems(2) have "cleanKeys g1" by (simp add: cleanKeys_iff)
    from Cons.IH[OF rest this] g1 show ?thesis by simp
  qed
qed

lemma merge_append: "merge (merge m es) es' = merge m (es @ es')"
  by (cases m) auto

lemma foldl_addEntry:
  "foldl (addEntry mid) m kvs w =
     merge (m w) (map (\<lambda>kv. \<lparr>entry_mapperId = mid, entry_count = snd kv\<rparr>) (filter (\<lambda>kv. fst kv = w) kvs))"
proof (induction kvs arbitrary: m)
  case Nil
  then show ?case by (cases "m w") auto
next
  case (Cons kv kvs)
  show ?case
    apply (simp only: foldl_Cons Cons.IH)
    apply (cases "m w")
     apply (auto simp: addEntry_def)
    done
qed

lemma shuffleOutputs_ok:
  "list_all (\<lambda>output. cleanKeys (counts output)) outputs \<Longrightarrow> cleanKeys g \<Longrightarrow>
   \<exists>g'. shuffleOutputs g outputs = Inr g' \<and> cleanKeys g'
         \<and> (\<forall>w. map_of g' w = merge (map_of g w) (entriesFor w outputs))"
proof (induction outputs arbitrary: g)
  case Nil
  then show ?case by (auto simp: entriesFor_def) (case_tac "map_of g w", auto)
next
  case (Cons out outs)
  from Cons.prems have c: "cleanKeys (counts out)"
    and rest: "list_all (\<lambda>x. cleanKeys (counts x)) outs" by simp_all
  from shuffleEntries_ok[OF c Cons.prems(2), of "mapperId out"] obtain g1 where
    g1: "shuffleEntries (mapperId out) g (counts out) = Inr g1"
        "map_of g1 = foldl (addEntry (mapperId out)) (map_of g) (counts out)"
        "cleanKeys g1" by blast
  from Cons.IH[OF rest g1(3)] obtain g2 where
    g2: "shuffleOutputs g1 outs = Inr g2" "cleanKeys g2"
        "\<forall>w. map_of g2 w = merge (map_of g1 w) (entriesFor w outs)" by blast
  have "map_of g2 w = merge (map_of g w) (entriesFor w (out # outs))" for w
    using g2(3) by (simp add: g1(2) foldl_addEntry merge_append entriesFor_def entriesOf_def)
  with g1 g2 show ?case by simp
qed

lemma shuffleOutputs_fail:
  "\<not> list_all (\<lambda>output. cleanKeys (counts output)) outputs \<Longrightarrow> cleanKeys g \<Longrightarrow>
   shuffleOutputs g outputs = Inl TypeError"
proof (induction outputs arbitrary: g)
  case Nil
  then show ?case by simp
next
  case (Cons out outs)
  show ?case
  proof (cases "cleanKeys (counts out)")
    case False
    then show ?thesis using Cons.prems(2) by (simp add: shuffleEntries_fail)
  next
    case True
    with Cons.prems(1) have rest: "\<not> list_all (\<lambda>x. cleanKeys (counts x)) outs" by simp
    from shuffleEntries_ok[OF True Cons.prems(2), of "mapperId out"] obtain g1 where
      g1: "shuffleEntries (mapperId out) g (counts out) = Inr g1" "cleanKeys g1" by blast
    from Cons.IH[OF rest g1(2)] g1 show ?thesis by simp
  qed
qed

lemma shufflePhase_ok:
  assumes "list_all (\<lambda>output. cleanKeys (counts output)) outputs"
  shows "\<exists>g. shufflePhase outputs = Inr g \<and> cleanKeys g
           \<and> (\<forall>w. map_of g w = merge None (entriesFor w outputs))"
  using shuffleOutputs_ok[OF assms, of "[]"] by (simp add: shufflePhase_def cleanKeys_def)

lemma shufflePhase_fail:
  "\<not> list_all (\<lambda>output. cleanKeys (counts output)) outputs \<Longrightarrow> shufflePhase outputs = Inl TypeError"
  using shuffleOutputs_fail[of outputs "[]"] by (simp add: shufflePhase_def cleanKeys_def)

lemma mset_concat_map_cong:
  "mset xs = mset ys \<Longrightarrow> mset (concat (map f xs)) = mset (concat (map f ys))"
proof -
  assume "mset xs = mset ys"
  then have "image_mset (\<lambda>x. mset (f x)) (mset xs) = image_mset (\<lambda>x. mset (f x)) (mset ys)" by simp
  then have "sum_mset (image_mset (\<lambda>x. mset (f x)) (mset xs)) = sum_mset (image_mset (\<lambda>x. mset (f x)) (mset ys))"
    by simp
  then show ?thesis by (simp add: mset_concat comp_def flip: sum_mset_sum_list)
qed

lemma map_option_mset_merge:
  "mset es = mset es' \<Longrightarrow> map_option mset (merge None es) = map_option mset (merge None es')"
  by (cases "es = []") auto

text \<open>
  C7 says that \<^verbatim>\<open>shufflePhase\<close> returns the same ShuffleGroup for every permutation of
  its input. The list of a word keeps the order in which the map results arrive: two
  results that both hold the word \<open>a\<close>, in the two possible orders, give two different
  lists for \<open>a\<close>.
\<close>

theorem shuffle_permutation_counterexample:
  "mset [\<lparr>mapperId = 0, counts = [(''a'', Num 1)]\<rparr>, \<lparr>mapperId = 1, counts = [(''a'', Num 1)]\<rparr>]
     = mset [\<lparr>mapperId = 1, counts = [(''a'', Num 1)]\<rparr>, \<lparr>mapperId = 0, counts = [(''a'', Num 1)]\<rparr>]
   \<and> shufflePhase [\<lparr>mapperId = 0, counts = [(''a'', Num 1)]\<rparr>, \<lparr>mapperId = 1, counts = [(''a'', Num 1)]\<rparr>]
      = Inr [(''a'', [\<lparr>entry_mapperId = 0, entry_count = Num 1\<rparr>, \<lparr>entry_mapperId = 1, entry_count = Num 1\<rparr>])]
   \<and> shufflePhase [\<lparr>mapperId = 1, counts = [(''a'', Num 1)]\<rparr>, \<lparr>mapperId = 0, counts = [(''a'', Num 1)]\<rparr>]
      = Inr [(''a'', [\<lparr>entry_mapperId = 1, entry_count = Num 1\<rparr>, \<lparr>entry_mapperId = 0, entry_count = Num 1\<rparr>])]
   \<and> shufflePhase [\<lparr>mapperId = 0, counts = [(''a'', Num 1)]\<rparr>, \<lparr>mapperId = 1, counts = [(''a'', Num 1)]\<rparr>]
      \<noteq> shufflePhase [\<lparr>mapperId = 1, counts = [(''a'', Num 1)]\<rparr>, \<lparr>mapperId = 0, counts = [(''a'', Num 1)]\<rparr>]"
proof -
  have a: "shufflePhase [\<lparr>mapperId = 0, counts = [(''a'', Num 1)]\<rparr>, \<lparr>mapperId = 1, counts = [(''a'', Num 1)]\<rparr>]
      = Inr [(''a'', [\<lparr>entry_mapperId = 0, entry_count = Num 1\<rparr>, \<lparr>entry_mapperId = 1, entry_count = Num 1\<rparr>])]"
    by code_simp
  have b: "shufflePhase [\<lparr>mapperId = 1, counts = [(''a'', Num 1)]\<rparr>, \<lparr>mapperId = 0, counts = [(''a'', Num 1)]\<rparr>]
      = Inr [(''a'', [\<lparr>entry_mapperId = 1, entry_count = Num 1\<rparr>, \<lparr>entry_mapperId = 0, entry_count = Num 1\<rparr>])]"
    by code_simp
  show ?thesis unfolding a b by simp
qed

text \<open>
  C7, as the code has it. For a permutation of the map results, \<^verbatim>\<open>shufflePhase\<close> throws
  on both lists or on neither; when it returns, both groups have the same words, and for
  each word the same entries up to their order within the list (the same multiset of
  mapper id and count), which are the contributions recorded for the word.
\<close>

theorem shuffle_permutation:
  assumes "mset xs = mset ys"
  shows "(shufflePhase xs = Inl TypeError \<and> shufflePhase ys = Inl TypeError)
       \<or> (\<exists>g g'. shufflePhase xs = Inr g \<and> shufflePhase ys = Inr g'
             \<and> (\<forall>w. map_option mset (map_of g w) = map_option mset (map_of g' w)
                   \<and> map_of g w = merge None (entriesFor w xs)
                   \<and> map_of g' w = merge None (entriesFor w ys)))"
proof (cases "list_all (\<lambda>x. cleanKeys (counts x)) xs")
  case False
  moreover from assms have "set xs = set ys" by (rule mset_eq_setD)
  ultimately have "\<not> list_all (\<lambda>x. cleanKeys (counts x)) ys" by (simp add: list_all_iff)
  with False show ?thesis by (simp add: shufflePhase_fail)
next
  case True
  moreover from assms have "set xs = set ys" by (rule mset_eq_setD)
  ultimately have ys: "list_all (\<lambda>x. cleanKeys (counts x)) ys" by (simp add: list_all_iff)
  from shufflePhase_ok[OF True] obtain g where
    g: "shufflePhase xs = Inr g" "\<forall>w. map_of g w = merge None (entriesFor w xs)" by blast
  from shufflePhase_ok[OF ys] obtain g' where
    g': "shufflePhase ys = Inr g'" "\<forall>w. map_of g' w = merge None (entriesFor w ys)" by blast
  have m: "mset (entriesFor w xs) = mset (entriesFor w ys)" for w
    unfolding entriesFor_def using assms by (rule mset_concat_map_cong)
  have "map_option mset (map_of g w) = map_option mset (map_of g' w)" for w
    using map_option_mset_merge[OF m[of w]] g(2) g'(2) by (simp only:)
  with g g' show ?thesis by blast
qed

theorem shuffle_permutation_witness:
  "\<exists>g g'. shufflePhase [\<lparr>mapperId = 0, counts = [(''a'', Num 1)]\<rparr>, \<lparr>mapperId = 1, counts = [(''a'', Num 1)]\<rparr>] = Inr g
     \<and> shufflePhase [\<lparr>mapperId = 1, counts = [(''a'', Num 1)]\<rparr>, \<lparr>mapperId = 0, counts = [(''a'', Num 1)]\<rparr>] = Inr g'
     \<and> map_option mset (map_of g ''a'') = map_option mset (map_of g' ''a'')"
proof -
  let ?xs = "[\<lparr>mapperId = 0, counts = [(''a'', Num 1)]\<rparr>, \<lparr>mapperId = 1, counts = [(''a'', Num 1)]\<rparr>]"
  let ?ys = "[\<lparr>mapperId = 1, counts = [(''a'', Num 1)]\<rparr>, \<lparr>mapperId = 0, counts = [(''a'', Num 1)]\<rparr>]"
  have "shufflePhase ?xs
      = Inr [(''a'', [\<lparr>entry_mapperId = 0, entry_count = Num 1\<rparr>, \<lparr>entry_mapperId = 1, entry_count = Num 1\<rparr>])]"
    by code_simp
  then have d: "shufflePhase ?xs \<noteq> Inl TypeError" by simp
  have "mset ?xs = mset ?ys" by simp
  from shuffle_permutation[OF this] d show ?thesis by blast
qed

text \<open>
  C6. The text \<^verbatim>\<open>constructor\<close> with one mapper gives the map result whose counts hold the
  key \<^verbatim>\<open>constructor\<close>; on that list \<^verbatim>\<open>shufflePhase\<close> throws TypeError instead of returning
  a group, because \<^verbatim>\<open>grouped[word]\<close> reads the inherited function and never becomes an
  array. It throws as well when the count recorded under that key is the number 1. On
  map results whose keys avoid the members of the prototype the group of every word is
  the list of its contributions, none dropped and none altered (\<open>shufflePhase_ok\<close>).
\<close>

theorem shuffle_constructor:
  "map mapFunction (splitTextIntoChunks ''constructor'' 1)
     = [\<lparr>mapperId = 0, counts = [(''constructor'', Str ''function Object() { [native code] }1'')]\<rparr>]
   \<and> shufflePhase [\<lparr>mapperId = 0, counts = [(''constructor'', Str ''function Object() { [native code] }1'')]\<rparr>]
     = Inl TypeError
   \<and> shufflePhase [\<lparr>mapperId = 0, counts = [(''constructor'', Num 1)]\<rparr>] = Inl TypeError"
  by code_simp

subsection \<open>Own keys stay distinct\<close>

lemma distinct_objInsert:
  "k \<notin> fst ` set ps \<Longrightarrow> distinct (map fst ps) \<Longrightarrow> distinct (map fst (objInsert k v ps))"
  by (induction k v ps rule: objInsert.induct) (auto simp: set_objInsert)

lemma fst_replace: "fst \<circ> (\<lambda>(k', v'). if k' = k then (k', v) else (k', v')) = fst"
  by (rule ext) (simp split: prod.splits)

lemma distinct_objSet: "distinct (map fst ob) \<Longrightarrow> distinct (map fst (objSet ob k v))"
  by (simp add: objSet_def distinct_objInsert fst_replace)

lemma keys_objSet_subset: "fst ` set (objSet ob k v) \<subseteq> insert k (fst ` set ob)"
proof (cases "k = ''__proto__''")
  case True
  then show ?thesis by (auto simp: objSet_def)
next
  case False
  then show ?thesis by (simp add: keys_objSet)
qed

lemma map_of_objSet_other: "w \<noteq> k \<Longrightarrow> map_of (objSet ob k v) w = map_of ob w"
proof (cases "k = ''__proto__''")
  case True
  then show ?thesis by (simp add: objSet_def)
next
  case False
  assume "w \<noteq> k"
  with False show ?thesis by (simp add: map_of_objSet)
qed

lemma set_objSet_subset: "set (objSet ob k v) \<subseteq> insert (k, v) (set ob)"
  by (auto simp: objSet_def set_objInsert split: if_splits)

lemma objSet_proto: "objSet ob ''__proto__'' v = ob"
  by (simp add: objSet_def)

lemma shuffleEntry_distinct:
  "shuffleEntry mid g kv = Inr g' \<Longrightarrow> distinct (map fst g) \<Longrightarrow> distinct (map fst g')"
  by (auto simp: shuffleEntry_def Let_def distinct_objSet split: lookup.splits)

lemma shuffleEntries_distinct:
  "shuffleEntries mid g kvs = Inr g' \<Longrightarrow> distinct (map fst g) \<Longrightarrow> distinct (map fst g')"
  by (induction kvs arbitrary: g) (auto split: sum.splits dest: shuffleEntry_distinct)

lemma shuffleOutputs_distinct:
  "shuffleOutputs g outputs = Inr g' \<Longrightarrow> distinct (map fst g) \<Longrightarrow> distinct (map fst g')"
  by (induction outputs arbitrary: g) (auto split: sum.splits dest: shuffleEntries_distinct)

lemma shufflePhase_distinct: "shufflePhase outputs = Inr g \<Longrightarrow> distinct (map fst g)"
  using shuffleOutputs_distinct[of "[]" outputs g] by (simp add: shufflePhase_def)

lemma filter_key:
  "distinct (map fst ob) \<Longrightarrow>
   filter (\<lambda>kv. fst kv = w) ob = (case map_of ob w of None \<Rightarrow> [] | Some v \<Rightarrow> [(w, v)])"
proof (induction ob)
  case Nil
  then show ?case by simp
next
  case (Cons kv ob)
  show ?case
  proof (cases "fst kv = w")
    case True
    with Cons.prems have "w \<notin> fst ` set ob" by auto
    then have "filter (\<lambda>kv. fst kv = w) ob = []" by (auto simp: filter_empty_conv)
    with True show ?thesis by (cases kv) simp
  next
    case False
    with Cons show ?thesis by (cases kv) simp
  qed
qed

section \<open>The map function\<close>

lemma isWhiteSpace_nat: "isWhiteSpace c = ((of_char c :: nat) \<in> {9, 10, 11, 12, 13, 32, 160})"
proof -
  have "(c = d) = ((of_char c :: nat) = of_char d)" for d by simp
  then show ?thesis unfolding isWhiteSpace_def by (simp del: of_char_eq_iff)
qed

lemma of_char_lowerChar:
  "(of_char (lowerChar c) :: nat) = (if isUpper c then of_char c + 32 else of_char c)"
  by (auto simp: lowerChar_def isUpper_def Let_def)

lemma isWhiteSpace_lowerChar: "isWhiteSpace (lowerChar c) = isWhiteSpace c"
  by (auto simp: isWhiteSpace_nat of_char_lowerChar isUpper_def Let_def)

lemma not_isUpper_lowerChar: "\<not> isUpper (lowerChar c)"
  unfolding isUpper_def[of "lowerChar c"] Let_def of_char_lowerChar
  by (auto simp: isUpper_def Let_def)

lemma lowerChar_idem: "lowerChar (lowerChar c) = lowerChar c"
  using not_isUpper_lowerChar[of c] by (simp add: lowerChar_def)

lemma split_toLowerCase: "splitWhitespace (toLowerCase s) = map toLowerCase (splitWhitespace s)"
proof (induction s rule: splitWhitespace.induct)
  case 1
  then show ?case by (simp add: toLowerCase_def)
next
  case (2 c cs)
  have dw: "dropWhile isWhiteSpace (map lowerChar cs) = map lowerChar (dropWhile isWhiteSpace cs)"
    by (simp add: dropWhile_map comp_def isWhiteSpace_lowerChar)
  show ?case
  proof (cases "isWhiteSpace c")
    case True
    with "2.IH"(1) show ?thesis
      by (simp add: toLowerCase_def isWhiteSpace_lowerChar dw)
  next
    case False
    with "2.IH"(2) show ?thesis
      by (auto simp: toLowerCase_def isWhiteSpace_lowerChar split: list.splits)
  qed
qed

lemma toLowerCase_lower: "list_all (\<lambda>c. \<not> isUpper c) (toLowerCase w)"
  by (simp add: toLowerCase_def list_all_iff not_isUpper_lowerChar)

lemma toLowerCase_Nil_iff: "(toLowerCase u = []) = (u = [])"
  by (simp add: toLowerCase_def)

lemma foldl_countWord_keys:
  "fst ` set (foldl countWord ob ws) \<subseteq> fst ` set ob \<union> {w \<in> set ws. w \<noteq> []}"
proof (induction ws arbitrary: ob)
  case Nil
  then show ?case by simp
next
  case (Cons w ws)
  have "fst ` set (countWord ob w) \<subseteq> fst ` set ob \<union> {v \<in> {w}. v \<noteq> []}"
    using keys_objSet_subset[of ob w] by (auto simp: countWord_def)
  with Cons.IH[of "countWord ob w"] show ?case by auto
qed

lemma foldl_countWord_distinct:
  "distinct (map fst ob) \<Longrightarrow> distinct (map fst (foldl countWord ob ws))"
  by (induction ws arbitrary: ob) (simp_all add: countWord_def distinct_objSet)

lemma countWord_same:
  assumes "\<not> protoKey w" "w \<noteq> []"
  shows "map_of (countWord ob w) w =
     Some (jsAdd (case map_of ob w of None \<Rightarrow> Num 0 | Some v \<Rightarrow> if truthy v then v else Num 0) (Num 1))"
proof -
  from assms(1) proto_key_proto have np: "w \<noteq> ''__proto__''" by auto
  show ?thesis
  proof (cases "map_of ob w")
    case None
    with assms(1) have "objGet ob w = Absent" by (simp add: objGet_absent)
    with None assms(2) show ?thesis by (simp add: countWord_def map_of_objSet[OF np])
  next
    case (Some v)
    then have "objGet ob w = Own v" by (rule objGet_own)
    with Some assms(2) show ?thesis by (simp add: countWord_def map_of_objSet[OF np])
  qed
qed

lemma countWord_other: "v \<noteq> w \<Longrightarrow> map_of (countWord ob w) v = map_of ob v"
  by (simp add: countWord_def map_of_objSet_other)

lemma foldl_countWord_count:
  assumes "\<not> protoKey w" "w \<noteq> []"
  shows "map_of ob w = None \<or> (\<exists>k\<ge>1. map_of ob w = Some (Num k)) \<Longrightarrow>
     map_of (foldl countWord ob ws) w =
       (case map_of ob w of
          None \<Rightarrow> if w \<in> set ws then Some (Num (int (count_list ws w))) else None
        | Some v \<Rightarrow> Some (jsAdd v (Num (int (count_list ws w)))))"
proof (induction ws arbitrary: ob)
  case Nil
  then show ?case by (auto split: option.splits)
next
  case (Cons x ws)
  show ?case
  proof (cases "x = w")
    case False
    then have "map_of (countWord ob x) w = map_of ob w" by (simp add: countWord_other)
    with Cons.IH[of "countWord ob x"] Cons.prems False show ?thesis by auto
  next
    case True
    from Cons.prems show ?thesis
    proof
      assume n: "map_of ob w = None"
      then have s: "map_of (countWord ob w) w = Some (Num 1)"
        using countWord_same[OF assms, of ob] by simp
      then have "map_of (countWord ob w) w = None \<or> (\<exists>k\<ge>1. map_of (countWord ob w) w = Some (Num k))"
        by simp
      from Cons.IH[OF this] s n True show ?thesis by simp
    next
      assume "\<exists>k\<ge>1. map_of ob w = Some (Num k)"
      then obtain k where k: "1 \<le> k" "map_of ob w = Some (Num k)" by blast
      then have s: "map_of (countWord ob w) w = Some (Num (k + 1))"
        using countWord_same[OF assms, of ob] by simp
      then have "map_of (countWord ob w) w = None \<or> (\<exists>k\<ge>1. map_of (countWord ob w) w = Some (Num k))"
        using k(1) by simp
      from Cons.IH[OF this] s k True show ?thesis by simp
    qed
  qed
qed

lemma mapFunction_count:
  assumes "\<not> protoKey w"
  shows "map_of (counts (mapFunction ch)) w =
     (if w \<noteq> [] \<and> w \<in> set (splitWhitespace (toLowerCase (chunk_text ch)))
      then Some (Num (int (count_list (splitWhitespace (toLowerCase (chunk_text ch))) w)))
      else None)"
proof (cases "w = []")
  case True
  have "w \<notin> fst ` set (counts (mapFunction ch))"
    using foldl_countWord_keys[of "[]" "splitWhitespace (toLowerCase (chunk_text ch))"] True
    by (auto simp: mapFunction_def)
  then show ?thesis using True by (simp add: map_of_eq_None_iff)
next
  case False
  from foldl_countWord_count[OF assms False, of "[]"] False show ?thesis
    by (simp add: mapFunction_def)
qed

lemma mapFunction_distinct: "distinct (map fst (counts (mapFunction ch)))"
  by (simp add: mapFunction_def foldl_countWord_distinct)

lemma mapFunction_keys:
  "fst ` set (counts (mapFunction ch)) \<subseteq> {w \<in> set (splitWhitespace (toLowerCase (chunk_text ch))). w \<noteq> []}"
  using foldl_countWord_keys[of "[]" "splitWhitespace (toLowerCase (chunk_text ch))"]
  by (simp add: mapFunction_def)

lemma foldl_countWord_no_proto:
  "''__proto__'' \<notin> fst ` set ob \<Longrightarrow> ''__proto__'' \<notin> fst ` set (foldl countWord ob ws)"
proof (induction ws arbitrary: ob)
  case Nil
  then show ?case by simp
next
  case (Cons w ws)
  have "''__proto__'' \<notin> fst ` set (countWord ob w)"
  proof (cases "w = ''__proto__''")
    case True
    with Cons.prems show ?thesis by (simp add: countWord_def objSet_proto)
  next
    case False
    with Cons.prems keys_objSet_subset[of ob w] show ?thesis by (auto simp: countWord_def)
  qed
  from Cons.IH[OF this] show ?case by simp
qed

lemma showNat_not_Nil: "showNat n \<noteq> []"
  by (subst showNat.simps) simp

lemma showInt_not_Nil: "showInt i \<noteq> []"
  by (simp add: showInt_def showNat_not_Nil)

lemma countWord_good:
  assumes "list_all goodEntry ob"
  shows "list_all goodEntry (countWord ob w)"
proof (cases "w = []")
  case True
  with assms show ?thesis by (simp add: countWord_def)
next
  case False
  let ?v = "jsAdd (orZero (objGet ob w)) (Num 1)"
  have own: "goodEntry (w, v)" if "map_of ob w = Some v" for v
    using assms map_of_SomeD[OF that] by (auto simp: list_all_iff)
  have "goodEntry (w, ?v)"
  proof (cases "map_of ob w")
    case (Some v)
    then have g: "objGet ob w = Own v" by (rule objGet_own)
    from own[OF Some] show ?thesis
      by (cases v) (auto simp: g goodEntry_def split: if_splits)
  next
    case None
    show ?thesis
    proof (cases "protoKey w")
      case True
      from objGet_inherited[OF None True] obtain s where "objGet ob w = Inherited s" ..
      with True show ?thesis by (simp add: goodEntry_def showInt_not_Nil)
    next
      case np: False
      with None have "objGet ob w = Absent" by (simp add: objGet_absent)
      with np show ?thesis by (simp add: goodEntry_def)
    qed
  qed
  with assms set_objSet_subset[of ob w ?v] False show ?thesis
    by (auto simp: countWord_def list_all_iff)
qed

lemma foldl_countWord_good:
  "list_all goodEntry ob \<Longrightarrow> list_all goodEntry (foldl countWord ob ws)"
  by (induction ws arbitrary: ob) (simp_all add: countWord_good)

lemma protoKey_lower:
  assumes "protoKey k" "list_all (\<lambda>c. \<not> isUpper c) k"
  shows "k = ''constructor'' \<or> k = ''__proto__''"
proof -
  define names where "names = [''__defineGetter__'', ''__defineSetter__'', ''hasOwnProperty'',
      ''__lookupGetter__'', ''__lookupSetter__'', ''isPrototypeOf'',
      ''propertyIsEnumerable'', ''toString'', ''valueOf'', ''toLocaleString'']"
  have c: "k = ''constructor'' \<or> k = ''__proto__'' \<or> k \<in> set names"
    using assms(1) unfolding protoKey_def objectPrototype_def names_def by (simp split: if_splits)
  have "list_all (\<lambda>k. list_ex isUpper k) names"
    unfolding names_def by (simp add: isUpper_def)
  then have "k \<notin> set names"
    using assms(2) unfolding list_all_iff list_ex_iff by blast
  with c show ?thesis by blast
qed

lemma not_protoKey_Nil: "\<not> protoKey []"
  by (simp add: protoKey_def objectPrototype_def)

text \<open>
  Every entry that \<^verbatim>\<open>mapFunction\<close> returns, for every chunk: the key is non-empty and
  lower-cased, and the count is a number that is at least 1, except under the key
  \<^verbatim>\<open>constructor\<close>, where it is a string.
\<close>

lemma mapFunction_entries:
  assumes "(w, v) \<in> set (counts (mapFunction ch))"
  shows "w \<noteq> [] \<and> list_all (\<lambda>c. \<not> isUpper c) w \<and> toLowerCase w = w
     \<and> (if w = ''constructor'' then \<exists>s. v = Str s else \<exists>k\<ge>1. v = Num k)"
proof -
  let ?ws = "splitWhitespace (toLowerCase (chunk_text ch))"
  from assms have k: "w \<in> fst ` set (counts (mapFunction ch))" by force
  with mapFunction_keys[of ch] have w: "w \<in> set ?ws" "w \<noteq> []" by auto
  from w(1) obtain u where "w = toLowerCase u" by (auto simp: split_toLowerCase)
  then have low: "list_all (\<lambda>c. \<not> isUpper c) w" "toLowerCase w = w"
    by (simp_all add: toLowerCase_lower) (simp add: toLowerCase_def lowerChar_idem)
  have "''__proto__'' \<notin> fst ` set (counts (mapFunction ch))"
    by (simp add: mapFunction_def foldl_countWord_no_proto)
  with k have np: "w \<noteq> ''__proto__''" by blast
  have "list_all goodEntry (counts (mapFunction ch))"
    by (simp add: mapFunction_def foldl_countWord_good)
  with assms have g: "goodEntry (w, v)" by (auto simp: list_all_iff)
  have "if w = ''constructor'' then \<exists>s. v = Str s else \<exists>k\<ge>1. v = Num k"
  proof (cases "protoKey w")
    case True
    with protoKey_lower[OF True low(1)] np g show ?thesis
      by (cases v) (auto simp: goodEntry_def)
  next
    case False
    then have "w \<noteq> ''constructor''" by (auto simp: protoKey_def objectPrototype_def)
    with False g show ?thesis by (cases v) (auto simp: goodEntry_def)
  qed
  with w(2) low show ?thesis by simp
qed

section \<open>The pipeline\<close>

lemma entriesOf_mapFunction:
  assumes "\<not> protoKey w"
  shows "entriesOf w (mapFunction ch) =
     (if w \<noteq> [] \<and> w \<in> set (splitWhitespace (toLowerCase (chunk_text ch)))
      then [\<lparr>entry_mapperId = chunk_id ch,
             entry_count = Num (int (count_list (splitWhitespace (toLowerCase (chunk_text ch))) w))\<rparr>]
      else [])"
proof -
  have "mapperId (mapFunction ch) = chunk_id ch" by (simp add: mapFunction_def)
  then show ?thesis
    by (simp add: entriesOf_def filter_key[OF mapFunction_distinct] mapFunction_count[OF assms])
qed

lemma reduce_numbers:
  "map entry_count es = map Num ks \<Longrightarrow>
   foldl (\<lambda>sum val. jsAdd sum (entry_count val)) (Num a) es = Num (a + sum_list ks)"
proof (induction es arbitrary: a ks)
  case Nil
  then show ?case by simp
next
  case (Cons e es)
  then obtain k ks' where ks: "ks = k # ks'" "entry_count e = Num k" "map entry_count es = map Num ks'"
    by (cases ks) auto
  from Cons.IH[OF ks(3), of "a + k"] ks show ?case by (simp add: add.assoc)
qed

lemma count_list_concat: "count_list (concat xss) w = sum_list (map (\<lambda>xs. count_list xs w) xss)"
  by (induction xss) simp_all

lemma addLogs_fields [simp]:
  "finalCounts (addLogs ms s) = finalCounts s" "isRunning (addLogs ms s) = isRunning s"
  "logs (addLogs ms s) = logs s @ ms"
  by (induction ms arbitrary: s) (simp_all add: addLogs_def addLog_def)

lemma collect_fst:
  "fst (foldl collectStep (f, s) rs) = foldl (\<lambda>f r. objSet f (rr_word r) (rr_count r)) f rs"
  by (induction rs arbitrary: f s) (simp_all add: collectStep_def)

lemma run_success:
  assumes "shufflePhase (map mapFunction (splitTextIntoChunks t n)) = Inr g"
  shows "finalCounts (runMapReduce t n) =
           foldl (\<lambda>f r. objSet f (rr_word r) (rr_count r)) []
             (map (\<lambda>kv. reduceFunction (fst kv) (snd kv)) g)"
    and "last (logs (runMapReduce t n)) = JobCompleted"
    and "isRunning (runMapReduce t n) = False"
  using assms by (simp_all add: runMapReduce_def Let_def addLog_def collect_fst)

lemma run_failure:
  assumes "shufflePhase (map mapFunction (splitTextIntoChunks t n)) = Inl e"
  shows "finalCounts (runMapReduce t n) = []"
    and "last (logs (runMapReduce t n)) = JobError e"
    and "isRunning (runMapReduce t n) = False"
  using assms by (simp_all add: runMapReduce_def Let_def addLog_def)

lemma final_fold:
  "distinct (map fst g) \<Longrightarrow> cleanKeys g \<Longrightarrow>
   map_of (foldl (\<lambda>f r. objSet f (rr_word r) (rr_count r)) f0
             (map (\<lambda>kv. reduceFunction (fst kv) (snd kv)) g)) w =
     (case map_of g w of
        Some vs \<Rightarrow> Some (foldl (\<lambda>sum val. jsAdd sum (entry_count val)) (Num 0) vs)
      | None \<Rightarrow> map_of f0 w)"
proof (induction g arbitrary: f0)
  case Nil
  then show ?case by simp
next
  case (Cons kv g)
  obtain k vs where kv: "kv = (k, vs)" by (cases kv)
  from Cons.prems kv have d: "distinct (map fst g)" "k \<notin> fst ` set g"
    and c: "cleanKeys g" "\<not> protoKey k" by (auto simp: cleanKeys_def)
  from c(2) proto_key_proto have np: "k \<noteq> ''__proto__''" by auto
  from d(2) have none: "map_of g k = None" by (simp add: map_of_eq_None_iff)
  have step: "map_of (objSet f0 k v) = (map_of f0)(k \<mapsto> v)" for v
    by (rule map_of_objSet[OF np])
  show ?case
    using Cons.IH[OF d(1) c(1), of "objSet f0 k (rr_count (reduceFunction k vs))"] none
    by (auto simp: kv reduceFunction_def step split: option.splits)
qed

lemma final_distinct:
  "distinct (map fst f0) \<Longrightarrow>
   distinct (map fst (foldl (\<lambda>f r. objSet f (rr_word r) (rr_count r)) f0 rs))"
  by (induction rs arbitrary: f0) (simp_all add: distinct_objSet)

lemma lowered_tokens:
  "map toLowerCase (tokens t) = filter (\<lambda>w. w \<noteq> []) (map toLowerCase (splitWhitespace (trim t)))"
proof -
  have "tokens t = filter (\<lambda>w. w \<noteq> []) (splitWhitespace (trim t))"
    using tokens_trim[of t] by (simp add: tokens_def)
  then show ?thesis by (simp add: filter_map comp_def toLowerCase_Nil_iff)
qed

lemma count_list_filter: "P w \<Longrightarrow> count_list (filter P xs) w = count_list xs w"
  by (induction xs) auto

lemma chunks_lowered:
  assumes "1 \<le> n"
  shows "concat (map (\<lambda>c. splitWhitespace (toLowerCase (chunk_text c))) (splitTextIntoChunks t n))
     = map toLowerCase (splitWhitespace (trim t))"
proof -
  have "concat (map (\<lambda>c. splitWhitespace (toLowerCase (chunk_text c))) (splitTextIntoChunks t n))
      = map toLowerCase (concat (map (\<lambda>c. splitWhitespace (chunk_text c)) (splitTextIntoChunks t n)))"
    by (simp add: split_toLowerCase map_concat comp_def)
  then show ?thesis by (simp add: chunks_words[OF assms])
qed

lemma sum_list_concat_if:
  "(\<And>c. c \<in> set cs \<Longrightarrow> \<not> P c \<Longrightarrow> f c = 0) \<Longrightarrow>
   sum_list (concat (map (\<lambda>c. if P c then [f c] else []) cs)) = (sum_list (map f cs) :: int)"
  by (induction cs) auto

lemma foldl_jsAdd_numbers: "foldl jsAdd (Num a) (map Num ks) = Num (a + sum_list ks)"
  by (induction ks arbitrary: a) (simp_all add: add.assoc)

lemma entriesFor_mapFunction:
  assumes "\<not> protoKey w" "w \<noteq> []"
  shows "entriesFor w (map mapFunction chs) =
     concat (map (\<lambda>c. if w \<in> set (splitWhitespace (toLowerCase (chunk_text c)))
                        then [\<lparr>entry_mapperId = chunk_id c,
                               entry_count = Num (int (count_list (splitWhitespace (toLowerCase (chunk_text c))) w))\<rparr>]
                        else []) chs)"
  using assms by (simp add: entriesFor_def comp_def entriesOf_mapFunction)

lemma concat_if_Nil_iff:
  "(concat (map (\<lambda>c. if P c then [f c] else []) cs) = []) = (\<forall>c\<in>set cs. \<not> P c)"
  by (induction cs) auto

lemma map_concat_if:
  "map h (concat (map (\<lambda>c. if P c then [f c] else []) cs))
     = concat (map (\<lambda>c. if P c then [h (f c)] else []) cs)"
  by (induction cs) auto

text \<open>
  The pipeline on a text none of whose lower-cased words is a member of the prototype
  (\<^verbatim>\<open>constructor\<close> and \<^verbatim>\<open>__proto__\<close> are the two lower-cased ones): for every \<open>n \<ge> 1\<close>
  the job completes, the final counts hold exactly the distinct lower-cased words, each
  with its number of occurrences, and the values add up to the word count of the text.
\<close>

lemma pipeline_lookup:
  assumes n: "1 \<le> n"
    and clean: "list_all (\<lambda>u. \<not> protoKey (toLowerCase u)) (tokens t)"
  shows "map_of (finalCounts (runMapReduce t n)) w =
           (if w \<in> set (map toLowerCase (tokens t))
            then Some (Num (int (count_list (map toLowerCase (tokens t)) w))) else None)"
    and "distinct (map fst (finalCounts (runMapReduce t n)))"
    and "last (logs (runMapReduce t n)) = JobCompleted"
proof -
  let ?chs = "splitTextIntoChunks t n"
  let ?L = "\<lambda>c. splitWhitespace (toLowerCase (chunk_text c))"
  let ?lw = "map toLowerCase (splitWhitespace (trim t))"
  let ?LT = "map toLowerCase (tokens t)"
  let ?outs = "map mapFunction ?chs"
  let ?R = "foldl (\<lambda>sum val. jsAdd sum (entry_count val)) (Num 0)"
  have cat: "concat (map ?L ?chs) = ?lw" using n by (rule chunks_lowered)
  have LT: "?LT = filter (\<lambda>w. w \<noteq> []) ?lw" by (rule lowered_tokens)
  have mem: "(w \<in> set ?lw) = (w \<in> set ?LT)" if "w \<noteq> []" for w
    using that unfolding LT by simp
  have cnt: "count_list ?lw w = count_list ?LT w" if "w \<noteq> []" for w
    unfolding LT using that by (simp add: count_list_filter)
  have np: "\<not> protoKey w" if "w \<in> set ?lw" for w
  proof (cases "w = []")
    case True
    then show ?thesis by (simp add: not_protoKey_Nil)
  next
    case False
    with that mem have "w \<in> set ?LT" by simp
    with clean show ?thesis by (auto simp: list_all_iff)
  qed
  have sub: "set (?L c) \<subseteq> set ?lw" if "c \<in> set ?chs" for c
    using that unfolding cat[symmetric] by auto
  have "cleanKeys (counts (mapFunction c))" if "c \<in> set ?chs" for c
    using mapFunction_keys[of c] sub[OF that] np unfolding cleanKeys_iff by blast
  then have "list_all (\<lambda>x. cleanKeys (counts x)) ?outs" by (simp add: list_all_iff)
  from shufflePhase_ok[OF this] obtain g where
    g: "shufflePhase ?outs = Inr g" "cleanKeys g"
       "\<forall>w. map_of g w = merge None (entriesFor w ?outs)" by blast
  have dg: "distinct (map fst g)" using g(1) by (rule shufflePhase_distinct)
  note run = run_success[OF g(1)]
  show "last (logs (runMapReduce t n)) = JobCompleted" by (rule run(2))
  show "distinct (map fst (finalCounts (runMapReduce t n)))"
    unfolding run(1) by (rule final_distinct) simp
  have fin: "map_of (finalCounts (runMapReduce t n)) w =
      (case map_of g w of Some vs \<Rightarrow> Some (?R vs) | None \<Rightarrow> None)"
    unfolding run(1) using final_fold[OF dg g(2), of "[]" w] by (cases "map_of g w") simp_all
  show "map_of (finalCounts (runMapReduce t n)) w =
           (if w \<in> set ?LT then Some (Num (int (count_list ?LT w))) else None)"
  proof (cases "protoKey w \<or> w = []")
    case True
    then have "w \<notin> set ?LT"
    proof
      assume "protoKey w"
      with clean show ?thesis by (auto simp: list_all_iff)
    next
      assume "w = []"
      then show ?thesis by (simp add: LT)
    qed
    moreover have "map_of g w = None"
    proof (cases "w = []")
      case True
      have "\<forall>c\<in>set ?chs. entriesOf w (mapFunction c) = []"
        using True by (simp add: entriesOf_mapFunction not_protoKey_Nil)
      then have "entriesFor w ?outs = []" by (simp add: entriesFor_def)
      with g(3) show ?thesis by simp
    next
      case False
      with \<open>protoKey w \<or> w = []\<close> have "protoKey w" by simp
      with g(2) have "w \<notin> fst ` set g" unfolding cleanKeys_iff by blast
      then show ?thesis by (simp add: map_of_eq_None_iff)
    qed
    ultimately show ?thesis by (simp add: fin)
  next
    case False
    then have w: "\<not> protoKey w" "w \<noteq> []" by simp_all
    let ?es = "entriesFor w ?outs"
    let ?ks = "concat (map (\<lambda>c. if w \<in> set (?L c) then [int (count_list (?L c) w)] else []) ?chs)"
    have es: "?es = concat (map (\<lambda>c. if w \<in> set (?L c)
                        then [\<lparr>entry_mapperId = chunk_id c, entry_count = Num (int (count_list (?L c) w))\<rparr>]
                        else []) ?chs)"
      using w by (rule entriesFor_mapFunction)
    have "map entry_count ?es = map Num ?ks"
      unfolding es by (simp add: map_concat_if cong: if_cong)
    then have "?R ?es = Num (0 + sum_list ?ks)" by (rule reduce_numbers)
    moreover have "sum_list ?ks = sum_list (map (\<lambda>c. int (count_list (?L c) w)) ?chs)"
      by (rule sum_list_concat_if) simp
    moreover have "\<dots> = int (count_list ?lw w)"
      unfolding cat[symmetric] by (simp add: count_list_concat comp_def flip: sum_list_of_nat)
    ultimately have R: "?R ?es = Num (int (count_list ?LT w))" using cnt[OF w(2)] by simp
    have "(?es = []) = (w \<notin> set ?lw)"
      unfolding es cat[symmetric] by (subst concat_if_Nil_iff) auto
    then have e: "(?es = []) = (w \<notin> set ?LT)" using mem[OF w(2)] by simp
    show ?thesis
    proof (cases "?es = []")
      case True
      with e g(3) show ?thesis by (simp add: fin)
    next
      case ne: False
      with g(3) have "map_of g w = Some ?es" by simp
      with e ne R show ?thesis by (simp add: fin)
    qed
  qed
qed

lemma pipeline_total:
  assumes n: "1 \<le> n"
    and clean: "list_all (\<lambda>u. \<not> protoKey (toLowerCase u)) (tokens t)"
  shows "foldl jsAdd (Num 0) (map snd (finalCounts (runMapReduce t n))) = Num (int (length (tokens t)))"
proof -
  let ?f = "finalCounts (runMapReduce t n)"
  let ?LT = "map toLowerCase (tokens t)"
  note p = pipeline_lookup[OF n clean]
  have d: "distinct (map fst ?f)" by (rule p(2))
  have v: "snd kv = Num (int (count_list ?LT (fst kv)))" and k: "fst kv \<in> set ?LT"
    if "kv \<in> set ?f" for kv
  proof -
    from that have "map_of ?f (fst kv) = Some (snd kv)" by (simp add: map_of_eq_Some_iff[OF d])
    with p(1)[of "fst kv"] show "snd kv = Num (int (count_list ?LT (fst kv)))" "fst kv \<in> set ?LT"
      by (auto split: if_splits)
  qed
  have keys: "set (map fst ?f) = set ?LT"
  proof
    show "set (map fst ?f) \<subseteq> set ?LT" using k by auto
    show "set ?LT \<subseteq> set (map fst ?f)"
    proof
      fix w assume "w \<in> set ?LT"
      with p(1)[of w] have "map_of ?f w \<noteq> None" by simp
      then show "w \<in> set (map fst ?f)" by (simp add: map_of_eq_None_iff)
    qed
  qed
  have "map snd ?f = map Num (map (\<lambda>w. int (count_list ?LT w)) (map fst ?f))"
    using v by (simp add: comp_def)
  then have "foldl jsAdd (Num 0) (map snd ?f)
      = Num (0 + sum_list (map (\<lambda>w. int (count_list ?LT w)) (map fst ?f)))"
    by (simp only: foldl_jsAdd_numbers)
  also have "sum_list (map (\<lambda>w. int (count_list ?LT w)) (map fst ?f))
      = (\<Sum>w\<in>set (map fst ?f). int (count_list ?LT w))"
    using d by (rule sum_list_distinct_conv_sum_set)
  also have "\<dots> = int (\<Sum>w\<in>set ?LT. count_list ?LT w)" unfolding keys by simp
  also have "(\<Sum>w\<in>set ?LT. count_list ?LT w) = length ?LT"
    by (rule sum_count_set) simp_all
  finally show ?thesis by simp
qed

text \<open>
  C2. The full pipeline on the text \<^verbatim>\<open>hello world hello distributed systems mapreduce world\<close>
  with three mappers ends with the final counts hello 2, world 2, distributed 1,
  systems 1, mapreduce 1, whose values add up to 7; the job completes.
\<close>

theorem scenario_hello_world:
  "finalCounts (runMapReduce ''hello world hello distributed systems mapreduce world'' 3)
     = [(''hello'', Num 2), (''world'', Num 2), (''distributed'', Num 1), (''systems'', Num 1),
        (''mapreduce'', Num 1)]
   \<and> foldl jsAdd (Num 0)
        (map snd (finalCounts (runMapReduce ''hello world hello distributed systems mapreduce world'' 3)))
     = Num 7
   \<and> last (logs (runMapReduce ''hello world hello distributed systems mapreduce world'' 3))
     = JobCompleted"
  by code_simp

text \<open>
  C8. On the chunk text \<^verbatim>\<open>the Constructor\<close> the count that \<^verbatim>\<open>mapFunction\<close> records for the
  key \<^verbatim>\<open>constructor\<close> is not a number that is at least 1 but a string:
  \<^verbatim>\<open>wordCount[word] || 0\<close> reads the inherited function \<^verbatim>\<open>Object\<close>, and adding 1 to it
  concatenates. Every other entry is as it should be (\<open>mapFunction_entries\<close>).
\<close>

theorem map_constructor:
  "mapFunction \<lparr>chunk_id = 0, chunk_text = ''the Constructor''\<rparr>
     = \<lparr>mapperId = 0,
        counts = [(''the'', Num 1), (''constructor'', Str ''function Object() { [native code] }1'')]\<rparr>"
  by code_simp

text \<open>
  C3. The text \<^verbatim>\<open>constructor\<close> has one word; with one mapper the pipeline stops in the
  shuffle with a TypeError, and the final counts stay empty: their values add up to 0.
  On a text without such a word the values add up to the word count (\<open>pipeline_total\<close>).
\<close>

theorem total_count_constructor:
  "tokens ''constructor'' = [''constructor'']
   \<and> finalCounts (runMapReduce ''constructor'' 1) = []
   \<and> foldl jsAdd (Num 0) (map snd (finalCounts (runMapReduce ''constructor'' 1))) = Num 0
   \<and> logs (runMapReduce ''constructor'' 1)
      = [MasterSplitting, MasterCreated 1, MasterSending, MapperReceived 0, MapperCompleted 0,
         MasterShuffling, JobError TypeError]"
  by code_simp

text \<open>
  C9. On the text \<^verbatim>\<open>a __proto__\<close> the job completes, and the final counts have no entry for
  the word \<^verbatim>\<open>__proto__\<close>: the assignment to that key of a plain object is ignored. On the
  text \<^verbatim>\<open>to be constructor to\<close> with two mappers the job stops with a TypeError, and the
  final counts have no entry at all. On a text without these two words the final counts
  are the occurrences of its lower-cased words (\<open>pipeline_lookup\<close>).
\<close>

theorem final_counts_proto:
  "tokens ''a __proto__'' = [''a'', ''__proto__'']
   \<and> finalCounts (runMapReduce ''a __proto__'' 1) = [(''a'', Num 1)]
   \<and> last (logs (runMapReduce ''a __proto__'' 1)) = JobCompleted
   \<and> tokens ''to be constructor to'' = [''to'', ''be'', ''constructor'', ''to'']
   \<and> finalCounts (runMapReduce ''to be constructor to'' 2) = []
   \<and> last (logs (runMapReduce ''to be constructor to'' 2)) = JobError TypeError"
  by code_simp

end
